theory Spec2Isabelle
  imports Main "HOL-Library.Sublist" "HOL-Library.Word"
begin

unbundle bit_operations_syntax

text \<open>
  A shallow embedding of the media acquisition code: the URL guard and the header emulator
  (\<open>app/lib/server-utils.ts\<close>), \<open>fetchMediaChunk\<close> (\<open>app/services/media-fetch.server.ts\<close>), and
  \<open>normalizeMediaInfo\<close> and \<open>extractFirstFileFromArchive\<close> (\<open>app/lib/media-utils.ts\<close>). What the
  runtime provides (the URL parser, \<open>fetch\<close>, \<open>decodeURIComponent\<close>, the decompression stream) is
  a parameter of the functions that use it; the text decoder is written out. The definitions come
  first, their properties after.
\<close>

section \<open>JavaScript values used by the code\<close>

text \<open>
  Strings are \<^typ>\<open>string\<close>; a thrown \<open>Error\<close> is the value \<open>Error msg\<close> on the left of a
  sum, a \<open>TypeError\<close> (\<open>new URL\<close> on an unparsable string) is \<open>TypeError msg\<close>.
\<close>

datatype js_error = Error string | TypeError string

text \<open>The result of \<open>parseInt\<close>: \<open>NaN\<close> or an integer (precision loss beyond \<open>2^53\<close> is not modelled).\<close>

datatype jsnum = NaN | Num int

definition startsWith :: "string \<Rightarrow> string \<Rightarrow> bool" where
  "startsWith s p = prefix p s"

definition endsWith :: "'a list \<Rightarrow> 'a list \<Rightarrow> bool" where
  "endsWith s p = suffix p s"

text \<open>\<open>s.includes(p)\<close>: \<open>p\<close> occurs in \<open>s\<close> as a contiguous substring.\<close>

fun str_includes :: "string \<Rightarrow> string \<Rightarrow> bool" where
  "str_includes [] p = (p = [])"
| "str_includes (c # cs) p = (prefix p (c # cs) \<or> str_includes cs p)"

text \<open>\<open>s.split(sep)\<close> for a one-character separator.\<close>

fun split_char :: "char \<Rightarrow> string \<Rightarrow> string list" where
  "split_char sep [] = [[]]"
| "split_char sep (c # cs) =
     (if c = sep then [] # split_char sep cs
      else (case split_char sep cs of
              [] \<Rightarrow> [[c]]
            | w # ws \<Rightarrow> (c # w) # ws))"

text \<open>\<open>parseInt(s, radix)\<close> for a radix between 2 and 36, other than 16 (no \<open>0x\<close> prefix is stripped).\<close>

definition is_js_whitespace :: "char \<Rightarrow> bool" where
  "is_js_whitespace c = (c \<in> set [CHR 0x09, CHR 0x0A, CHR 0x0B, CHR 0x0C, CHR 0x0D, CHR '' '', CHR 0xA0])"

definition digit_value :: "char \<Rightarrow> nat option" where
  "digit_value c =
     (let n = (of_char c :: nat) in
      if 48 \<le> n \<and> n \<le> 57 then Some (n - 48)
      else if 97 \<le> n \<and> n \<le> 122 then Some (n - 87)
      else if 65 \<le> n \<and> n \<le> 90 then Some (n - 55)
      else None)"

definition is_digit_in :: "nat \<Rightarrow> char \<Rightarrow> bool" where
  "is_digit_in radix c = (case digit_value c of None \<Rightarrow> False | Some d \<Rightarrow> d < radix)"

definition digits_value :: "nat \<Rightarrow> string \<Rightarrow> nat" where
  "digits_value radix ds = foldl (\<lambda>acc c. acc * radix + the (digit_value c)) 0 ds"

definition parseInt :: "string \<Rightarrow> nat \<Rightarrow> jsnum" where
  "parseInt s radix =
     (let s1 = dropWhile is_js_whitespace s;
          sign = (case s1 of c # _ \<Rightarrow> (if c = CHR ''-'' then (-1::int) else 1) | [] \<Rightarrow> 1);
          s2 = (case s1 of c # r \<Rightarrow> (if c = CHR ''-'' \<or> c = CHR ''+'' then r else s1) | [] \<Rightarrow> s1);
          ds = takeWhile (is_digit_in radix) s2
      in if ds = [] then NaN else Num (sign * int (digits_value radix ds)))"

text \<open>\<open>a >= b\<close> and \<open>a <= b\<close> on numbers: every comparison with \<open>NaN\<close> is false.\<close>

fun js_ge :: "jsnum \<Rightarrow> int \<Rightarrow> bool" where
  "js_ge NaN b = False"
| "js_ge (Num a) b = (a \<ge> b)"

fun js_le :: "jsnum \<Rightarrow> int \<Rightarrow> bool" where
  "js_le NaN b = False"
| "js_le (Num a) b = (a \<le> b)"

fun isNaN :: "jsnum \<Rightarrow> bool" where
  "isNaN NaN = True"
| "isNaN (Num a) = False"

section \<open>URL guard (\<open>app/lib/server-utils.ts\<close>)\<close>

definition LOCALHOST_IPS :: "string list" where
  "LOCALHOST_IPS = [''::1'', ''127.0.0.1'']"

definition META_DATA_HOSTS :: "string list" where
  "META_DATA_HOSTS = [''metadata.google.internal'', ''169.254.169.254'']"

text \<open>\<open>host.split('.')[1]\<close> handed to \<open>parseInt\<close>: a missing element is \<open>undefined\<close>, which
  \<open>parseInt\<close> reads as the string \<open>undefined\<close>.\<close>

definition second_octet :: "string \<Rightarrow> jsnum" where
  "second_octet host =
     (case split_char CHR ''.'' host of
        _ # x # _ \<Rightarrow> parseInt x 10
      | _ \<Rightarrow> parseInt ''undefined'' 10)"

text \<open>The body of \<open>validateUrl\<close> once \<open>new URL(url).hostname\<close> is known.\<close>

definition validateHost :: "string \<Rightarrow> js_error + unit" where
  "validateHost host =
     (if host = ''localhost'' \<or> startsWith host ''127.'' \<or> host \<in> set LOCALHOST_IPS
      then Inl (Error ''Invalid URL: Access to local resources is denied.'')
      else if host \<in> set META_DATA_HOSTS
      then Inl (Error ''Invalid URL: Access to metadata services is denied.'')
      else if startsWith host ''10.'' \<or> startsWith host ''192.168.''
      then Inl (Error ''Invalid URL: Access to private resources is denied.'')
      else if startsWith host ''172.''
      then (let secondOctet = second_octet host in
            if \<not> isNaN secondOctet \<and> js_ge secondOctet 16 \<and> js_le secondOctet 31
            then Inl (Error ''Invalid URL: Access to private resources is denied.'')
            else Inr ())
      else Inr ())"

text \<open>
  \<open>validateUrl\<close>. The platform's URL parser is the parameter \<open>hostname\<close>: \<open>None\<close> when
  \<open>new URL(url)\<close> throws, otherwise the parsed URL's \<open>hostname\<close>.
\<close>

definition validateUrl :: "(string \<Rightarrow> string option) \<Rightarrow> string \<Rightarrow> js_error + unit" where
  "validateUrl hostname url =
     (case hostname url of
        None \<Rightarrow> Inl (TypeError ''Invalid URL'')
      | Some host \<Rightarrow> validateHost host)"

text \<open>The other version of \<open>validateUrl\<close> kept in the same file (the second definition there).\<close>

definition validateHost_2 :: "string \<Rightarrow> js_error + unit" where
  "validateHost_2 host =
     (if host = ''localhost'' \<or> startsWith host ''127.'' \<or> host = ''[::1]'' \<or> host = ''::1''
      then Inl (Error ''Invalid URL: Access to local resources is denied.'')
      else if startsWith host ''10.'' \<or> startsWith host ''192.168.'' \<or> startsWith host ''169.254.''
              \<or> (startsWith host ''172.'' \<and> js_ge (second_octet host) 16 \<and> js_le (second_octet host) 31)
      then Inl (Error ''Invalid URL: Access to private resources is denied.'')
      else if host = ''metadata.google.internal'' \<or> host = ''169.254.169.254''
      then Inl (Error ''Invalid URL: Access to metadata services is denied.'')
      else Inr ())"

definition validateUrl_2 :: "(string \<Rightarrow> string option) \<Rightarrow> string \<Rightarrow> js_error + unit" where
  "validateUrl_2 hostname url =
     (case hostname url of
        None \<Rightarrow> Inl (TypeError ''Invalid URL'')
      | Some host \<Rightarrow> validateHost_2 host)"

text \<open>An \<open>InvalidURL\<close> failure: an \<open>Error\<close> whose message starts with \<open>Invalid URL\<close> (what the
  request handler tests to answer 403).\<close>

definition invalid_url :: "js_error + unit \<Rightarrow> bool" where
  "invalid_url r = (\<exists>msg. r = Inl (Error msg) \<and> startsWith msg ''Invalid URL'')"

text \<open>
  \<open>GOOGLE_DRIVE_REGEX\<close> is \<open>/https:\/\/drive\.google\.com\/file\/d\/([-a-zA-Z0-9_]+)\/view/\<close>.
  \<open>match_here\<close> is the pattern anchored at the start of its argument: the literal lead, the
  longest run of identifier characters (none of which is a slash, so no shorter run can be
  followed by \<open>/view\<close>), then \<open>/view\<close>. \<open>exec\<close> tries every start position from the left
  and gives capture group 1 of the first match.
\<close>

definition is_file_id_char :: "char \<Rightarrow> bool" where
  "is_file_id_char c =
     (let n = (of_char c :: nat) in
      c = CHR ''-'' \<or> (97 \<le> n \<and> n \<le> 122) \<or> (65 \<le> n \<and> n \<le> 90) \<or> (48 \<le> n \<and> n \<le> 57) \<or> c = CHR ''_'')"

definition GOOGLE_DRIVE_LEAD :: string where
  "GOOGLE_DRIVE_LEAD = ''https://drive.google.com/file/d/''"

definition match_here :: "string \<Rightarrow> string option" where
  "match_here s =
     (if prefix GOOGLE_DRIVE_LEAD s
      then (let r = drop (length GOOGLE_DRIVE_LEAD) s;
                fileId = takeWhile is_file_id_char r
            in if fileId \<noteq> [] \<and> prefix ''/view'' (dropWhile is_file_id_char r)
               then Some fileId else None)
      else None)"

fun GOOGLE_DRIVE_REGEX_exec :: "string \<Rightarrow> string option" where
  "GOOGLE_DRIVE_REGEX_exec [] = None"
| "GOOGLE_DRIVE_REGEX_exec (c # cs) =
     (case match_here (c # cs) of
        Some fileId \<Rightarrow> Some fileId
      | None \<Rightarrow> GOOGLE_DRIVE_REGEX_exec cs)"

record resolved_url =
  url :: string
  isGoogleDrive :: bool

definition resolveGoogleDriveUrl :: "string \<Rightarrow> resolved_url" where
  "resolveGoogleDriveUrl u =
     (case GOOGLE_DRIVE_REGEX_exec u of
        Some fileId \<Rightarrow>
          \<lparr>url = ''https://drive.usercontent.google.com/download?id='' @ fileId @ ''&export=download&confirm=t'',
           isGoogleDrive = True\<rparr>
      | None \<Rightarrow>
          if str_includes u ''drive.usercontent.google.com''
          then \<lparr>url = u, isGoogleDrive = True\<rparr>
          else \<lparr>url = u, isGoogleDrive = False\<rparr>)"

text \<open>What it means for a string to match the view-link pattern somewhere, stated on the
  string itself rather than by the search.\<close>

definition matches_view_link :: "string \<Rightarrow> bool" where
  "matches_view_link u =
     (\<exists>pre fileId post. u = pre @ GOOGLE_DRIVE_LEAD @ fileId @ ''/view'' @ post
        \<and> fileId \<noteq> [] \<and> (\<forall>c \<in> set fileId. is_file_id_char c))"


section \<open>Metadata clean-up (\<open>app/lib/media-utils.ts\<close>)\<close>

text \<open>
  A JSON-like value as \<open>normalizeMediaInfo\<close> sees it: the primitives (with \<open>undefined\<close>), arrays,
  and plain objects as key/value lists in the order of \<open>Object.keys\<close>. The number type is left open.
\<close>

datatype 'n json =
    JString string
  | JNumber 'n
  | JBool bool
  | JNull
  | JUndefined
  | JArray "'n json list"
  | JObject "(string \<times> 'n json) list"

text \<open>\<open>'#value' in data && data['#value'] !== undefined\<close>, with the value found.\<close>

definition wrapper_value :: "(string \<times> 'n json) list \<Rightarrow> 'n json option" where
  "wrapper_value kvs =
     (case map_of kvs ''#value'' of
        None \<Rightarrow> None
      | Some v \<Rightarrow> if v \<noteq> JUndefined then Some v else None)"

fun normalizeMediaInfo :: "'n json \<Rightarrow> 'n json" where
  "normalizeMediaInfo (JArray items) = JArray (map normalizeMediaInfo items)"
| "normalizeMediaInfo (JObject kvs) =
     (case wrapper_value kvs of
        Some v \<Rightarrow> v
      | None \<Rightarrow> JObject (map (\<lambda>(key, v). (key, normalizeMediaInfo v)) kvs))"
| "normalizeMediaInfo v = v"



section \<open>Header emulator (\<open>app/lib/server-utils.ts\<close>)\<close>

definition EMULATION_HEADERS_INIT :: "(string \<times> string) list" where
  \<open>EMULATION_HEADERS_INIT =
     [(''accept'', ''text/html,application/xhtml+xml,application/xml;q=0.9,image/avif,image/webp,image/apng,*/*;q=0.8,application/signed-exchange;v=b3;q=0.7''),
      (''accept-language'', ''en-US,en;q=0.9''),
      (''priority'', ''u=0, i''),
      (''sec-ch-ua'', ''"Google Chrome";v="143", "Chromium";v="143", "Not A(Brand";v="24"''),
      (''sec-ch-ua-mobile'', ''?0''),
      (''sec-ch-ua-platform'', ''"macOS"''),
      (''sec-fetch-dest'', ''document''),
      (''sec-fetch-mode'', ''navigate''),
      (''sec-fetch-site'', ''none''),
      (''sec-fetch-user'', ''?1''),
      (''upgrade-insecure-requests'', ''1''),
      (''user-agent'', ''Mozilla/5.0 (Macintosh; Intel Mac OS X 10_15_7) AppleWebKit/537.36 (KHTML, like Gecko) Chrome/143.0.0.0 Safari/537.36'')]\<close>

text \<open>\<open>getEmulationHeaders(range)\<close>: the static set, with \<open>Range\<close> set when a non-empty range is given.\<close>

definition getEmulationHeaders :: "string option \<Rightarrow> (string \<times> string) list" where
  "getEmulationHeaders rng =
     (case rng of
        None \<Rightarrow> EMULATION_HEADERS_INIT
      | Some r \<Rightarrow> if r \<noteq> [] then EMULATION_HEADERS_INIT @ [(''Range'', r)] else EMULATION_HEADERS_INIT)"

section \<open>Bounded stream fetcher (\<open>app/services/media-fetch.server.ts\<close>)\<close>

subsection \<open>The platform\<close>

type_synonym byte = "8 word"

text \<open>
  One \<open>read()\<close> on a body reader gives a chunk or rejects with an error; a body is the finite
  list of these results, and every read past its end reports \<open>done\<close>.
\<close>

datatype read_result = Chunk "byte list" | Failure js_error

record request =
  req_url :: string
  req_method :: string
  req_headers :: "(string \<times> string) list"

text \<open>A response: \<open>headers.get\<close> by lower-case name, and the body's reader if there is a body.\<close>

record response =
  status :: nat
  headers :: "string \<Rightarrow> string option"
  body :: "read_result list option"

text \<open>
  What the runtime provides. \<open>fetch n req\<close> is the outcome of the \<open>n\<close>-th call of \<open>fetch\<close> made by
  one invocation, \<open>url_hostname\<close> the URL parser, \<open>decodeURIComponent\<close> with \<open>None\<close> for a
  \<open>URIError\<close>, and \<open>inflate_raw\<close> the reads that
  \<open>stream.pipeThrough(new DecompressionStream('deflate-raw'))\<close> delivers for the reads of
  \<open>stream\<close>.
\<close>

record platform =
  fetch :: "nat \<Rightarrow> request \<Rightarrow> js_error + response"
  url_hostname :: "string \<Rightarrow> string option"
  decodeURIComponent :: "string \<Rightarrow> string option"
  inflate_raw :: "read_result list \<Rightarrow> read_result list"

definition response_ok :: "response \<Rightarrow> bool" where
  "response_ok r = (200 \<le> status r \<and> status r \<le> 299)"

text \<open>\<open>err instanceof Error ? err.message : String(err)\<close>.\<close>

fun error_message :: "js_error \<Rightarrow> string" where
  "error_message (Error m) = m"
| "error_message (TypeError m) = m"

text \<open>Numbers in template literals.\<close>

definition digit_char :: "nat \<Rightarrow> char" where
  "digit_char d = char_of (48 + d)"

fun show_nat :: "nat \<Rightarrow> string" where
  "show_nat n = (if n < 10 then [digit_char n] else show_nat (n div 10) @ [digit_char (n mod 10)])"

definition show_jsnum :: "jsnum \<Rightarrow> string" where
  "show_jsnum x =
     (case x of
        NaN \<Rightarrow> ''NaN''
      | Num i \<Rightarrow> if i < 0 then CHR ''-'' # show_nat (nat (- i)) else show_nat (nat i))"

subsection \<open>Probe: \<open>HEAD\<close> with fallback to \<open>GET\<close>\<close>

text \<open>The probe gives the verb used, the response to inspect, and the number of calls of
  \<open>fetch\<close> made so far.\<close>

definition probe :: "platform \<Rightarrow> string \<Rightarrow> js_error + (string \<times> response \<times> nat)" where
  "probe P targetUrl =
     (case fetch P 0 \<lparr>req_url = targetUrl, req_method = ''HEAD'',
                      req_headers = getEmulationHeaders None\<rparr> of
        Inl e \<Rightarrow> Inl e
      | Inr headRes \<Rightarrow>
          if status headRes = 405
          then (case fetch P 1 \<lparr>req_url = targetUrl, req_method = ''GET'',
                                 req_headers = getEmulationHeaders (Some ''bytes=0-0'')\<rparr> of
                  Inl e \<Rightarrow> Inl e
                | Inr getRes \<Rightarrow> Inr (''GET'', getRes, 2))
          else Inr (''HEAD'', headRes, 1))"

definition check_probe :: "bool \<Rightarrow> response \<Rightarrow> js_error + unit" where
  "check_probe isDrive headRes =
     (if (case headers headRes ''content-type'' of
            None \<Rightarrow> False
          | Some contentType \<Rightarrow> str_includes contentType ''text/html'')
      then (if isDrive
            then Inl (Error ''Google Drive file is rate-limited. Try again in 24 hours.'')
            else Inl (Error ''URL links to a webpage, not a media file. Provide a direct link.''))
      else if \<not> response_ok headRes
      then (if status headRes = 404 then Inl (Error ''Media file not found. Check the URL.'')
            else if status headRes = 403
            then Inl (Error ''Access denied. The link may have expired or requires authentication.'')
            else Inl (Error (''Unable to access file (HTTP '' @ show_nat (status headRes) @ '').'')))
      else Inr ())"

subsection \<open>File size and file name\<close>

definition is_dec_digit :: "char \<Rightarrow> bool" where
  "is_dec_digit c = (48 \<le> (of_char c :: nat) \<and> (of_char c :: nat) \<le> 57)"

text \<open>\<open>contentRange.match(/\/(\d+)$/)\<close>: capture group 1 of the leftmost match.\<close>

fun content_range_total :: "string \<Rightarrow> string option" where
  "content_range_total [] = None"
| "content_range_total (c # cs) =
     (if c = CHR ''/'' \<and> cs \<noteq> [] \<and> list_all is_dec_digit cs then Some cs
      else content_range_total cs)"

text \<open>Truthiness of \<open>fileSize\<close>: \<open>undefined\<close>, \<open>NaN\<close> and \<open>0\<close> are falsy.\<close>

fun truthy_size :: "jsnum option \<Rightarrow> bool" where
  "truthy_size None = False"
| "truthy_size (Some NaN) = False"
| "truthy_size (Some (Num n)) = (n \<noteq> 0)"

definition determine_file_size :: "response \<Rightarrow> jsnum option" where
  "determine_file_size headRes =
     (let fileSize =
            (case headers headRes ''content-range'' of
               None \<Rightarrow> None
             | Some contentRange \<Rightarrow>
                 if contentRange \<noteq> []
                 then (case content_range_total contentRange of
                         None \<Rightarrow> None
                       | Some digits \<Rightarrow> Some (parseInt digits 10))
                 else None)
      in if \<not> truthy_size fileSize
         then (case headers headRes ''content-length'' of
                 None \<Rightarrow> fileSize
               | Some cl \<Rightarrow> if cl \<noteq> [] then Some (parseInt cl 10) else fileSize)
         else fileSize)"

text \<open>Case-insensitive literals of the two \<open>Content-Disposition\<close> patterns (flag \<open>i\<close>, ASCII letters).\<close>

definition to_upper_ascii :: "char \<Rightarrow> char" where
  "to_upper_ascii c =
     (let n = (of_char c :: nat) in if 97 \<le> n \<and> n \<le> 122 then char_of (n - 32) else c)"

definition prefix_ci :: "string \<Rightarrow> string \<Rightarrow> bool" where
  "prefix_ci lit s = prefix (map to_upper_ascii lit) (map to_upper_ascii s)"

text \<open>\<open>/filename\*=UTF-8''([^;]+)/i\<close>: capture group 1 of the leftmost match.\<close>

definition star_here :: "string \<Rightarrow> string option" where
  "star_here s =
     (let lit = ''filename*=UTF-8'' @ [CHR 0x27, CHR 0x27] in
      if prefix_ci lit s
      then (let g = takeWhile (\<lambda>c. c \<noteq> CHR '';'') (drop (length lit) s)
            in if g \<noteq> [] then Some g else None)
      else None)"

fun star_match :: "string \<Rightarrow> string option" where
  "star_match [] = None"
| "star_match (c # cs) =
     (case star_here (c # cs) of Some g \<Rightarrow> Some g | None \<Rightarrow> star_match cs)"

text \<open>\<open>/filename="?([^";]+)"?/i\<close>: capture group 1 of the leftmost match. An opening quote,
  when present, has to be consumed: the group cannot start with it.\<close>

definition normal_here :: "string \<Rightarrow> string option" where
  \<open>normal_here s =
     (if prefix_ci ''filename='' s
      then (let r = drop (length ''filename='') s;
                r' = (case r of c # cs \<Rightarrow> if c = CHR 0x22 then cs else r | [] \<Rightarrow> r);
                g = takeWhile (\<lambda>c. c \<noteq> CHR 0x22 \<and> c \<noteq> CHR '';'') r'
            in if g \<noteq> [] then Some g else None)
      else None)\<close>

fun normal_match :: "string \<Rightarrow> string option" where
  "normal_match [] = None"
| "normal_match (c # cs) =
     (case normal_here (c # cs) of Some g \<Rightarrow> Some g | None \<Rightarrow> normal_match cs)"

definition determine_filename :: "platform \<Rightarrow> string \<Rightarrow> response \<Rightarrow> string" where
  "determine_filename P targetUrl headRes =
     (case headers headRes ''content-disposition'' of
        None \<Rightarrow> targetUrl
      | Some contentDisposition \<Rightarrow>
          if contentDisposition = [] then targetUrl
          else (case star_match contentDisposition of
                  Some g \<Rightarrow>
                    (case decodeURIComponent P g of
                       Some decoded \<Rightarrow> decoded
                     | None \<Rightarrow> targetUrl)
                | None \<Rightarrow>
                    (case normal_match contentDisposition of
                       Some g \<Rightarrow> g
                     | None \<Rightarrow> targetUrl)))"

subsection \<open>The range to request\<close>

text \<open>\<open>Math.min(chunkSize - 1, fileSize - 1)\<close> when the size is known, else \<open>chunkSize - 1\<close>;
  arithmetic with \<open>NaN\<close> gives \<open>NaN\<close>.\<close>

definition fetch_end :: "int \<Rightarrow> jsnum option \<Rightarrow> jsnum" where
  "fetch_end chunkSize fileSize =
     (case fileSize of
        None \<Rightarrow> Num (chunkSize - 1)
      | Some NaN \<Rightarrow> NaN
      | Some (Num n) \<Rightarrow> Num (min (chunkSize - 1) (n - 1)))"

text \<open>The number of bytes the range \<open>bytes=0-fetchEnd\<close> asks for.\<close>

definition requested_range_length :: "int \<Rightarrow> jsnum option \<Rightarrow> int option" where
  "requested_range_length chunkSize fileSize =
     (case fetch_end chunkSize fileSize of NaN \<Rightarrow> None | Num e \<Rightarrow> Some (e + 1))"

declare show_nat.simps [simp del]

subsection \<open>Reading the body into the fixed buffer\<close>

definition SAFE_LIMIT :: nat where
  "SAFE_LIMIT = 10 * 1024 * 1024"

definition ZIP_SIG :: "byte list" where
  "ZIP_SIG = [0x50, 0x4b, 0x03, 0x04]"

text \<open>\<open>chunk[i] | (chunk[i + 1] << 8)\<close>.\<close>

definition u16_at :: "byte list \<Rightarrow> nat \<Rightarrow> nat" where
  "u16_at chunk i = unat (chunk ! i) OR push_bit 8 (unat (chunk ! (i + 1)))"

text \<open>
  The readers after the first read and the zip check: the first chunk if it is still to be
  copied, the reads that \<open>finalReader\<close> will deliver, and the flag \<open>isZipCompressed\<close>.
\<close>

record body_reader =
  firstChunk :: "byte list option"
  finalReader :: "read_result list"
  isZipCompressed :: bool

definition has_zip_signature :: "byte list \<Rightarrow> bool" where
  "has_zip_signature chunk =
     (length chunk > 30 \<and> chunk ! 0 = ZIP_SIG ! 0 \<and> chunk ! 1 = ZIP_SIG ! 1
      \<and> chunk ! 2 = ZIP_SIG ! 2 \<and> chunk ! 3 = ZIP_SIG ! 3)"

definition dataOffset :: "byte list \<Rightarrow> nat" where
  "dataOffset chunk =
     (let fileNameLength = u16_at chunk 26;
          extraFieldLength = u16_at chunk 28
      in 30 + fileNameLength + extraFieldLength)"

text \<open>
  The synthetic stream emits the first chunk past the header and then the reads of the original
  reader; it is piped through the decompressor.
\<close>

definition open_reader ::
  "(read_result list \<Rightarrow> read_result list) \<Rightarrow> byte list option \<Rightarrow> read_result list \<Rightarrow> body_reader" where
  "open_reader inflate first reader =
     (case first of
        None \<Rightarrow> \<lparr>firstChunk = None, finalReader = reader, isZipCompressed = False\<rparr>
      | Some chunk \<Rightarrow>
          if has_zip_signature chunk
          then (let compressionMethod = u16_at chunk 8 in
                if compressionMethod = 8
                then (if length chunk > dataOffset chunk
                      then (let dataInFirstChunk = drop (dataOffset chunk) chunk in
                            \<lparr>firstChunk = None,
                             finalReader = inflate (Chunk dataInFirstChunk # reader),
                             isZipCompressed = True\<rparr>)
                      else \<lparr>firstChunk = Some chunk, finalReader = reader, isZipCompressed = True\<rparr>)
                else \<lparr>firstChunk = Some chunk, finalReader = reader, isZipCompressed = False\<rparr>)
          else \<lparr>firstChunk = Some chunk, finalReader = reader, isZipCompressed = False\<rparr>)"

text \<open>
  The state of the copy: the write offset, the pre-allocated buffer, whether a reader was
  cancelled, and the reads of \<open>finalReader\<close> that were never made.
\<close>

record copy_state =
  offset :: nat
  tempBuffer :: "byte list"
  cancelled :: bool
  unread :: "read_result list"

text \<open>\<open>buf.set(src, off)\<close>; every call in the code is guarded so that \<open>src\<close> fits.\<close>

definition buffer_set :: "byte list \<Rightarrow> byte list \<Rightarrow> nat \<Rightarrow> byte list" where
  "buffer_set buf src off = take off buf @ src @ drop (off + length src) buf"

text \<open>The \<open>while (true)\<close> loop over \<open>finalReader\<close>; the first component is the error thrown, if any.\<close>

fun copy_loop :: "read_result list \<Rightarrow> copy_state \<Rightarrow> js_error option \<times> copy_state" where
  "copy_loop [] s = (None, s\<lparr>unread := []\<rparr>)"
| "copy_loop (Failure err # rest) s = (Some err, s\<lparr>unread := rest\<rparr>)"
| "copy_loop (Chunk v # rest) s =
     (let spaceLeft = SAFE_LIMIT - offset s in
      if length v > spaceLeft
      then (None, s\<lparr>tempBuffer := buffer_set (tempBuffer s) (take spaceLeft v) (offset s),
                      offset := offset s + spaceLeft,
                      cancelled := True,
                      unread := rest\<rparr>)
      else copy_loop rest (s\<lparr>tempBuffer := buffer_set (tempBuffer s) v (offset s),
                              offset := offset s + length v\<rparr>))"

text \<open>The first part of the \<open>try\<close> block: the pending first chunk goes into the empty buffer.\<close>

definition copy_first_chunk :: "body_reader \<Rightarrow> copy_state" where
  "copy_first_chunk r =
     (let s0 = \<lparr>offset = 0, tempBuffer = replicate SAFE_LIMIT 0, cancelled = False,
                unread = finalReader r\<rparr>
      in case firstChunk r of
           None \<Rightarrow> s0
         | Some chunk \<Rightarrow>
             (let spaceLeft = SAFE_LIMIT - offset s0 in
              if length chunk > spaceLeft
              then s0\<lparr>tempBuffer := buffer_set (tempBuffer s0) (take spaceLeft chunk) (offset s0),
                      offset := offset s0 + spaceLeft,
                      cancelled := \<not> isZipCompressed r\<rparr>
              else s0\<lparr>tempBuffer := buffer_set (tempBuffer s0) chunk (offset s0),
                      offset := offset s0 + length chunk\<rparr>))"

text \<open>The body of the \<open>try\<close> block.\<close>

definition copy_body :: "body_reader \<Rightarrow> js_error option \<times> copy_state" where
  "copy_body r =
     (let s1 = copy_first_chunk r
      in if offset s1 < SAFE_LIMIT then copy_loop (finalReader r) s1 else (None, s1))"

definition expected_end :: "string \<Rightarrow> bool" where
  "expected_end errorMessage =
     (str_includes errorMessage ''incomplete data'' \<or> str_includes errorMessage ''unexpected end of file'')"

text \<open>The \<open>catch\<close> clause.\<close>

definition catch_stream_error :: "js_error option \<times> copy_state \<Rightarrow> js_error + copy_state" where
  "catch_stream_error outcome =
     (case outcome of
        (None, s) \<Rightarrow> Inr s
      | (Some err, s) \<Rightarrow>
          (let errorMessage = error_message err in
           if offset s > 0 \<and> expected_end errorMessage then Inr s
           else Inl (Error (''Stream reading failed: '' @ errorMessage))))"

text \<open>
  From \<open>response.body?.getReader()\<close> to the end of the \<open>catch\<close>. The first read happens before
  the \<open>try\<close>: when it fails, its error leaves the function as it is.
\<close>

definition read_body ::
  "(read_result list \<Rightarrow> read_result list) \<Rightarrow> read_result list option \<Rightarrow> js_error + copy_state" where
  "read_body inflate responseBody =
     (case responseBody of
        None \<Rightarrow> Inl (Error ''Failed to retrieve response body stream'')
      | Some [] \<Rightarrow> catch_stream_error (copy_body (open_reader inflate None []))
      | Some (Failure err # reader) \<Rightarrow> Inl err
      | Some (Chunk v # reader) \<Rightarrow> catch_stream_error (copy_body (open_reader inflate (Some v) reader)))"

text \<open>\<open>tempBuffer.subarray(0, offset)\<close>.\<close>

definition fileBuffer :: "copy_state \<Rightarrow> byte list" where
  "fileBuffer s = take (offset s) (tempBuffer s)"

subsection \<open>\<open>fetchMediaChunk\<close>\<close>

text \<open>The diagnostics without the three durations, which are wall-clock measurements.\<close>

record FetchDiagnostics =
  diag_isGoogleDrive :: bool
  resolvedFilename :: string
  responseStatus :: nat
  probeMethod :: string

record MediaFetchResult =
  buffer :: "byte list"
  filename :: string
  fileSize :: "jsnum option"
  diagnostics :: FetchDiagnostics

definition fetchMediaChunk :: "platform \<Rightarrow> string \<Rightarrow> int \<Rightarrow> js_error + MediaFetchResult" where
  "fetchMediaChunk P initialUrl chunkSize =
     (let resolved = resolveGoogleDriveUrl initialUrl;
          targetUrl = url resolved
      in case validateUrl (url_hostname P) targetUrl of
           Inl e \<Rightarrow> Inl e
         | Inr _ \<Rightarrow>
        (case probe P targetUrl of
           Inl e \<Rightarrow> Inl e
         | Inr (verb, headRes, calls) \<Rightarrow>
        (case check_probe (isGoogleDrive resolved) headRes of
           Inl e \<Rightarrow> Inl e
         | Inr _ \<Rightarrow>
        (let size = determine_file_size headRes;
             name = determine_filename P targetUrl headRes;
             fetchEnd = fetch_end chunkSize size
         in case fetch P calls \<lparr>req_url = targetUrl, req_method = ''GET'',
                                  req_headers = getEmulationHeaders (Some (''bytes=0-'' @ show_jsnum fetchEnd))\<rparr> of
              Inl e \<Rightarrow> Inl e
            | Inr res \<Rightarrow>
           (case read_body (inflate_raw P) (body res) of
              Inl e \<Rightarrow> Inl e
            | Inr s \<Rightarrow>
                Inr \<lparr>buffer = fileBuffer s,
                     filename = name,
                     fileSize = size,
                     diagnostics = \<lparr>diag_isGoogleDrive = isGoogleDrive resolved,
                                    resolvedFilename = name,
                                    responseStatus = status res,
                                    probeMethod = verb\<rparr>\<rparr>)))))"

subsection \<open>Notions used to state the properties of the fetcher\<close>

text \<open>The chunks a reader delivers before its first failure (all of them if it never fails).\<close>

fun chunks_before :: "read_result list \<Rightarrow> byte list list" where
  "chunks_before [] = []"
| "chunks_before (Failure err # rest) = []"
| "chunks_before (Chunk v # rest) = v # chunks_before rest"

text \<open>The first chunk is taken for the local header of a deflated zip entry and stripped.\<close>

definition unwraps :: "byte list \<Rightarrow> bool" where
  "unwraps chunk = (has_zip_signature chunk \<and> u16_at chunk 8 = 8 \<and> length chunk > dataOffset chunk)"

definition unwrapped :: "read_result list \<Rightarrow> bool" where
  "unwrapped reads = (case reads of Chunk chunk # _ \<Rightarrow> unwraps chunk | _ \<Rightarrow> False)"

text \<open>The bytes of the first chunk that are still to be copied by the \<open>try\<close> block.\<close>

definition pending_bytes :: "body_reader \<Rightarrow> byte list" where
  "pending_bytes r = (case firstChunk r of None \<Rightarrow> [] | Some chunk \<Rightarrow> chunk)"

text \<open>The invariant of the copy: the offset stays within the buffer, whose size never changes.\<close>

definition copy_inv :: "copy_state \<Rightarrow> bool" where
  "copy_inv s = (offset s \<le> SAFE_LIMIT \<and> length (tempBuffer s) = SAFE_LIMIT)"

text \<open>The reads whose chunks end up in the buffer: the decompressed stream when the first chunk
  is unwrapped, the body itself otherwise.\<close>

definition payload_reads ::
  "(read_result list \<Rightarrow> read_result list) \<Rightarrow> read_result list \<Rightarrow> read_result list" where
  "payload_reads inflate reads =
     (case reads of
        Chunk chunk # reader \<Rightarrow>
          if unwraps chunk then inflate (Chunk (drop (dataOffset chunk) chunk) # reader) else reads
      | _ \<Rightarrow> reads)"

subsection \<open>Sample first chunks\<close>

text \<open>A local header of a deflated entry \<open>a.mkv\<close> (flags 0, compression 8, name length 5, an
  extra field of 2 bytes) followed by the start of its data: the header of a final stored block
  of three bytes (\<open>01\<close>, length \<open>03 00\<close>, complement \<open>FC FF\<close>) and the first of the three.\<close>

definition deflated_first_chunk :: "byte list" where
  "deflated_first_chunk =
     [0x50, 0x4b, 0x03, 0x04, 20, 0, 0, 0, 8, 0, 0, 0, 0, 0, 0, 0, 0, 0, 0, 0, 0, 0, 0, 0, 0, 0,
      5, 0, 2, 0, 0x61, 0x2e, 0x6d, 0x6b, 0x76, 0xCA, 0xFE, 1, 3, 0, 0xFC, 0xFF, 0x0A]"

text \<open>The same header with compression 0 (stored) and no extra field, and three payload bytes.\<close>

definition stored_first_chunk :: "byte list" where
  "stored_first_chunk =
     [0x50, 0x4b, 0x03, 0x04, 20, 0, 0, 0, 0, 0, 0, 0, 0, 0, 0, 0, 0, 0, 0, 0, 0, 0, 0, 0, 0, 0,
      5, 0, 0, 0, 0x61, 0x2e, 0x6d, 0x6b, 0x76, 0xAA, 0xBB, 0xCC]"

subsection \<open>A sample decompressor\<close>

text \<open>
  Raw deflate restricted to one final stored block (RFC 1951, section 3.2.4): the header byte
  \<open>01\<close>, the length and its one's complement in two little-endian bytes each, then that many
  literal bytes. It reads the chunks of its input, gives the literal bytes, and fails on any
  other block and on an input that ends early.
\<close>

definition inflate_stored :: "read_result list \<Rightarrow> read_result list" where
  "inflate_stored reads =
     (case concat (chunks_before reads) of
        h # l0 # l1 # n0 # n1 # literal \<Rightarrow>
          if h = 1 \<and> n0 = NOT l0 \<and> n1 = NOT l1
          then (let len = unat l0 + 256 * unat l1 in
                if len \<le> length literal then [Chunk (take len literal)]
                else [Chunk literal, Failure (TypeError ''unexpected end of file'')])
          else [Failure (TypeError ''invalid block type'')]
      | _ \<Rightarrow> [Failure (TypeError ''unexpected end of file'')])"

subsection \<open>Sample origins\<close>

text \<open>An origin that declares a size with \<open>Content-Length\<close> on \<open>HEAD\<close> and answers every
  other request with one chunk, whatever the range asked for.\<close>

definition sample_origin :: "string \<Rightarrow> byte list \<Rightarrow> platform" where
  "sample_origin declared payload =
     \<lparr>fetch = (\<lambda>n req.
          if req_method req = ''HEAD''
          then Inr \<lparr>status = 200, headers = [''content-length'' \<mapsto> declared], body = None\<rparr>
          else Inr \<lparr>status = 206, headers = Map.empty, body = Some [Chunk payload]\<rparr>),
      url_hostname = (\<lambda>u. Some ''example.com''),
      decodeURIComponent = Some,
      inflate_raw = (\<lambda>reads. reads)\<rparr>"

text \<open>An origin that rejects \<open>HEAD\<close> with 405 and an HTML page, answers the one-byte probe with
  the size and the file name, and then serves the content.\<close>

definition head_rejecting_origin :: platform where
  "head_rejecting_origin =
     \<lparr>fetch = (\<lambda>n req.
          if n = 0
          then Inr \<lparr>status = 405, headers = [''content-type'' \<mapsto> ''text/html''], body = None\<rparr>
          else if n = 1
          then Inr \<lparr>status = 206,
                    headers = [''content-range'' \<mapsto> ''bytes 0-0/5'',
                               ''content-disposition'' \<mapsto> ''attachment; filename=clip.mkv''],
                    body = Some [Chunk [1]]\<rparr>
          else Inr \<lparr>status = 206, headers = Map.empty, body = Some [Chunk [1, 2, 3, 4, 5]]\<rparr>),
      url_hostname = (\<lambda>u. Some ''example.com''),
      decodeURIComponent = Some,
      inflate_raw = (\<lambda>reads. reads)\<rparr>"

section \<open>Archive peek (\<open>app/lib/media-utils.ts\<close>)\<close>

subsection \<open>Decoded text\<close>

text \<open>
  A string that \<open>TextDecoder\<close> returns is kept as the list of its code points, since a name in an
  archive can hold any character. JavaScript keeps such a string in UTF-16; what the code does
  with it (\<open>endsWith('/')\<close>, the test for the empty string, the comparison with \<open>ustar\<close>,
  \<open>parseInt\<close>) reads the same on both forms. \<open>code_points\<close> is a string literal in that form.
\<close>

type_synonym ustring = "nat list"

definition code_points :: "string \<Rightarrow> ustring" where
  "code_points s = map of_char s"

text \<open>
  The UTF-8 decoder of the Encoding Standard, which \<open>new TextDecoder()\<close> runs with error mode
  \<open>replacement\<close>: its state, the handling of a byte when no continuation is awaited, and the run
  over the bytes. A byte outside the awaited range gives U+FFFD and is then read again as a first
  byte; so does the end of the input inside a sequence.
\<close>

record utf8_decoder =
  code_point :: nat
  bytes_seen :: nat
  bytes_needed :: nat
  lower_boundary :: nat
  upper_boundary :: nat

definition utf8_initial :: utf8_decoder where
  "utf8_initial = \<lparr>code_point = 0, bytes_seen = 0, bytes_needed = 0, lower_boundary = 0x80,
                    upper_boundary = 0xBF\<rparr>"

definition utf8_lead :: "nat \<Rightarrow> ustring \<times> utf8_decoder" where
  "utf8_lead b =
     (if b \<le> 0x7F then ([b], utf8_initial)
      else if 0xC2 \<le> b \<and> b \<le> 0xDF
      then ([], utf8_initial\<lparr>bytes_needed := 1, code_point := b AND 0x1F\<rparr>)
      else if 0xE0 \<le> b \<and> b \<le> 0xEF
      then ([], utf8_initial\<lparr>lower_boundary := (if b = 0xE0 then 0xA0 else 0x80),
                             upper_boundary := (if b = 0xED then 0x9F else 0xBF),
                             bytes_needed := 2, code_point := b AND 0xF\<rparr>)
      else if 0xF0 \<le> b \<and> b \<le> 0xF4
      then ([], utf8_initial\<lparr>lower_boundary := (if b = 0xF0 then 0x90 else 0x80),
                             upper_boundary := (if b = 0xF4 then 0x8F else 0xBF),
                             bytes_needed := 3, code_point := b AND 0x7\<rparr>)
      else ([0xFFFD], utf8_initial))"

fun utf8_decode :: "utf8_decoder \<Rightarrow> byte list \<Rightarrow> ustring" where
  "utf8_decode d [] = (if bytes_needed d \<noteq> 0 then [0xFFFD] else [])"
| "utf8_decode d (byte # queue) =
     (let b = unat byte in
      if bytes_needed d = 0
      then fst (utf8_lead b) @ utf8_decode (snd (utf8_lead b)) queue
      else if b < lower_boundary d \<or> upper_boundary d < b
      then 0xFFFD # fst (utf8_lead b) @ utf8_decode (snd (utf8_lead b)) queue
      else (let cp = push_bit 6 (code_point d) OR (b AND 0x3F) in
            if bytes_seen d + 1 \<noteq> bytes_needed d
            then utf8_decode (d\<lparr>lower_boundary := 0x80, upper_boundary := 0xBF, code_point := cp,
                                bytes_seen := bytes_seen d + 1\<rparr>) queue
            else cp # utf8_decode utf8_initial queue))"

text \<open>
  \<open>new TextDecoder().decode(bytes)\<close>: the decoder's output without a leading byte-order mark
  U+FEFF (the option \<open>ignoreBOM\<close> is off by default).
\<close>

definition decode_text :: "byte list \<Rightarrow> ustring" where
  "decode_text bytes =
     (case utf8_decode utf8_initial bytes of
        [] \<Rightarrow> []
      | c # cs \<Rightarrow> if c = 0xFEFF then cs else c # cs)"

text \<open>
  \<open>parseInt(s, radix)\<close> on such a string, for a radix between 2 and 36 other than 16: the white
  space skipped at the start is \<open>WhiteSpace\<close> and \<open>LineTerminator\<close> of the language, which reach
  beyond Latin-1.
\<close>

definition is_whitespace_code :: "nat \<Rightarrow> bool" where
  "is_whitespace_code c =
     (c \<in> set [0x09, 0x0A, 0x0B, 0x0C, 0x0D, 0x20, 0xA0, 0x1680, 0x2028, 0x2029, 0x202F, 0x205F,
               0x3000, 0xFEFF]
      \<or> (0x2000 \<le> c \<and> c \<le> 0x200A))"

definition digit_code :: "nat \<Rightarrow> nat option" where
  "digit_code n =
     (if 48 \<le> n \<and> n \<le> 57 then Some (n - 48)
      else if 97 \<le> n \<and> n \<le> 122 then Some (n - 87)
      else if 65 \<le> n \<and> n \<le> 90 then Some (n - 55)
      else None)"

definition is_digit_code_in :: "nat \<Rightarrow> nat \<Rightarrow> bool" where
  "is_digit_code_in radix c = (case digit_code c of None \<Rightarrow> False | Some d \<Rightarrow> d < radix)"

definition digit_codes_value :: "nat \<Rightarrow> ustring \<Rightarrow> nat" where
  "digit_codes_value radix ds = foldl (\<lambda>acc c. acc * radix + the (digit_code c)) 0 ds"

definition parseInt_text :: "ustring \<Rightarrow> nat \<Rightarrow> jsnum" where
  "parseInt_text s radix =
     (let s1 = dropWhile is_whitespace_code s;
          sign = (case s1 of c # _ \<Rightarrow> (if c = 0x2D then (-1::int) else 1) | [] \<Rightarrow> 1);
          s2 = (case s1 of c # r \<Rightarrow> (if c = 0x2D \<or> c = 0x2B then r else s1) | [] \<Rightarrow> s1);
          ds = takeWhile (is_digit_code_in radix) s2
      in if ds = [] then NaN else Num (sign * int (digit_codes_value radix ds)))"

subsection \<open>Typed arrays\<close>

text \<open>\<open>buffer[i]\<close> on a typed array (\<open>None\<close> is \<open>undefined\<close>) and \<open>buffer.subarray(start, fin)\<close>,
  where a negative index counts from the end and both are clamped.\<close>

definition at :: "byte list \<Rightarrow> int \<Rightarrow> byte option" where
  "at buf i = (if 0 \<le> i \<and> i < int (length buf) then Some (buf ! nat i) else None)"

definition subarray :: "byte list \<Rightarrow> int \<Rightarrow> int \<Rightarrow> byte list" where
  "subarray buf start fin =
     (let len = int (length buf);
          b = (if start < 0 then max (len + start) 0 else min start len);
          e = (if fin < 0 then max (len + fin) 0 else min fin len)
      in take (nat (e - b)) (drop (nat b) buf))"

text \<open>\<open>view.getUint16(i, true)\<close> and \<open>view.getUint32(i, true)\<close>; the code only reads inside the
  30 header bytes it has checked to be there.\<close>

definition getUint16 :: "byte list \<Rightarrow> nat \<Rightarrow> nat" where
  "getUint16 buf i = unat (buf ! i) + 256 * unat (buf ! (i + 1))"

definition getUint32 :: "byte list \<Rightarrow> nat \<Rightarrow> nat" where
  "getUint32 buf i =
     unat (buf ! i) + 256 * unat (buf ! (i + 1)) + 65536 * unat (buf ! (i + 2))
       + 16777216 * unat (buf ! (i + 3))"

subsection \<open>ZIP\<close>

text \<open>The \<open>while\<close> loop of \<open>extractFirstFileFromZip\<close>, from a given offset.\<close>

function zip_walk :: "byte list \<Rightarrow> nat \<Rightarrow> ustring option" where
  "zip_walk buf offs =
     (if offs + 30 \<le> length buf
      then (if buf ! offs \<noteq> 0x50 \<or> buf ! (offs + 1) \<noteq> 0x4b
               \<or> buf ! (offs + 2) \<noteq> 0x03 \<or> buf ! (offs + 3) \<noteq> 0x04
            then None
            else (let generalPurposeFlag = getUint16 buf (offs + 6);
                      compressedSize = getUint32 buf (offs + 18);
                      fileNameLength = getUint16 buf (offs + 26);
                      extraFieldLength = getUint16 buf (offs + 28);
                      fileNameStart = offs + 30
                  in if fileNameStart + fileNameLength > length buf then None
                     else (let fileName = decode_text (subarray buf (int fileNameStart)
                                                         (int (fileNameStart + fileNameLength)));
                               hasDataDescriptor = (generalPurposeFlag AND 0x08 \<noteq> 0)
                           in if hasDataDescriptor \<and> \<not> endsWith fileName (code_points ''/'')
                              then Some fileName
                              else if \<not> hasDataDescriptor \<and> \<not> endsWith fileName (code_points ''/'')
                              then Some fileName
                              else (let skipSize = (if hasDataDescriptor then 0 else compressedSize);
                                        headerSize = 30 + fileNameLength + extraFieldLength
                                    in zip_walk buf (offs + headerSize + skipSize)))))
      else None)"
  by pat_completeness auto
termination
  by (relation "measure (\<lambda>(buf, offs). length buf - offs)") auto

declare zip_walk.simps [simp del]

definition extractFirstFileFromZip :: "byte list \<Rightarrow> ustring option" where
  "extractFirstFileFromZip buf = zip_walk buf 0"

subsection \<open>TAR\<close>

text \<open>The all-zero test of a block, entered when its first byte is zero.\<close>

definition isZeroBlock :: "byte list \<Rightarrow> int \<Rightarrow> bool" where
  "isZeroBlock buf offs = list_all (\<lambda>i. at buf (offs + int i) = Some 0) [0..<512]"

text \<open>The scan \<open>while (e < limit && buffer[e] !== 0 [&& buffer[e] !== 0x20]) e++\<close> from \<open>start\<close>:
  the number of steps made.\<close>

fun scan_field :: "(byte option \<Rightarrow> bool) \<Rightarrow> byte list \<Rightarrow> int \<Rightarrow> nat \<Rightarrow> nat" where
  "scan_field stop buf start 0 = 0"
| "scan_field stop buf start (Suc n) =
     (if stop (at buf start) then 0 else Suc (scan_field stop buf (start + 1) n))"

text \<open>The name field: 100 bytes at most, up to the first zero byte; \<open>None\<close> when it is empty.\<close>

definition header_name :: "byte list \<Rightarrow> int \<Rightarrow> ustring option" where
  "header_name buf offs =
     (let nameEnd = offs + int (scan_field (\<lambda>b. b = Some 0) buf offs 100)
      in if nameEnd > offs then Some (decode_text (subarray buf offs nameEnd)) else None)"

text \<open>The size field: 12 bytes at offset 124, up to a zero byte or a space, read as octal;
  \<open>parseInt(sizeStr, 8) || 0\<close>.\<close>

definition header_size :: "byte list \<Rightarrow> int \<Rightarrow> int" where
  "header_size buf offs =
     (let sizeEnd = offs + 124 + int (scan_field (\<lambda>b. b = Some 0 \<or> b = Some 0x20) buf (offs + 124) 12);
          sizeStr = decode_text (subarray buf (offs + 124) sizeEnd)
      in case parseInt_text sizeStr 8 of NaN \<Rightarrow> 0 | Num n \<Rightarrow> n)"

text \<open>\<open>String.fromCharCode(buffer[offset + 156])\<close>, as its character code (\<open>undefined\<close> gives 0).\<close>

definition header_typeFlag :: "byte list \<Rightarrow> int \<Rightarrow> byte" where
  "header_typeFlag buf offs = (case at buf (offs + 156) of None \<Rightarrow> 0 | Some b \<Rightarrow> b)"

text \<open>\<open>Math.ceil(size / 512)\<close>.\<close>

definition ceil_blocks :: "int \<Rightarrow> int" where
  "ceil_blocks n = - ((- n) div 512)"

text \<open>The long name of a \<open>L\<close> block: its payload without the trailing zero bytes.\<close>

definition long_name :: "byte list \<Rightarrow> int \<Rightarrow> int \<Rightarrow> ustring" where
  "long_name buf contentStart contentEnd =
     (let longNameBytes = subarray buf contentStart contentEnd
      in decode_text (rev (dropWhile (\<lambda>b. b = 0) (rev longNameBytes))))"

text \<open>Truthiness of a name: \<open>null\<close> and the empty string are falsy.\<close>

fun truthy_name :: "ustring option \<Rightarrow> bool" where
  "truthy_name None = False"
| "truthy_name (Some n) = (n \<noteq> [])"

fun name_ends_with_slash :: "ustring option \<Rightarrow> bool" where
  "name_ends_with_slash None = False"
| "name_ends_with_slash (Some n) = endsWith n (code_points ''/'')"

text \<open>
  The \<open>while\<close> loop of \<open>extractFirstFileFromTar\<close>. A size field may hold a negative number, so
  the offset may fail to advance: the result is \<open>None\<close> when the loop does not end, and
  \<open>Some\<close> of the value returned otherwise.
\<close>

partial_function (option) tar_walk :: "byte list \<Rightarrow> int \<Rightarrow> ustring option \<Rightarrow> ustring option option" where
  "tar_walk buf offs nextNameOverride =
     (if offs + 512 \<le> int (length buf)
      then (if at buf offs = Some 0 \<and> isZeroBlock buf offs
            then tar_walk buf (offs + 512) nextNameOverride
            else (let name = (if truthy_name nextNameOverride then nextNameOverride
                              else (case header_name buf offs of
                                      Some n \<Rightarrow> Some n
                                    | None \<Rightarrow> nextNameOverride));
                      typeFlag = header_typeFlag buf offs;
                      entrySize = header_size buf offs
                  in if typeFlag = 0x4C
                     then (let blocks = ceil_blocks entrySize;
                               contentStart = offs + 512;
                               contentEnd = contentStart + entrySize
                           in tar_walk buf (offs + (512 + blocks * 512))
                                (if contentEnd \<le> int (length buf)
                                 then Some (long_name buf contentStart contentEnd)
                                 else nextNameOverride))
                     else (let isDir = (typeFlag = 0x35 \<or> name_ends_with_slash name);
                               isFile = (typeFlag = 0x30 \<or> typeFlag = 0 \<or> typeFlag = 0x20)
                           in if \<not> isDir \<and> isFile \<and> truthy_name name \<and> \<not> name_ends_with_slash name
                              then Some name
                              else tar_walk buf (offs + (512 + ceil_blocks entrySize * 512)) None)))
      else Some None)"

definition extractFirstFileFromTar :: "byte list \<Rightarrow> ustring option option" where
  "extractFirstFileFromTar buf = tar_walk buf 0 None"

subsection \<open>\<open>extractFirstFileFromArchive\<close>\<close>

definition extractFirstFileFromArchive :: "byte list \<Rightarrow> ustring option option" where
  "extractFirstFileFromArchive buf =
     (if length buf > 4 \<and> buf ! 0 = 0x50 \<and> buf ! 1 = 0x4b \<and> buf ! 2 = 0x03
         \<and> buf ! 3 = 0x04
      then Some (extractFirstFileFromZip buf)
      else if length buf > 262 \<and> decode_text (subarray buf 257 262) = code_points ''ustar''
      then extractFirstFileFromTar buf
      else Some None)"

declare tar_walk.simps [code]

subsection \<open>Well-formed archives\<close>

text \<open>A string as bytes (ASCII), and little-endian fields.\<close>

definition bytes_of :: "string \<Rightarrow> byte list" where
  "bytes_of s = map (\<lambda>c. of_nat (of_char c)) s"

definition le16 :: "nat \<Rightarrow> byte list" where
  "le16 n = [of_nat n, of_nat (n div 256)]"

definition le32 :: "nat \<Rightarrow> byte list" where
  "le32 n = [of_nat n, of_nat (n div 256), of_nat (n div 65536), of_nat (n div 16777216)]"

text \<open>
  A ZIP local file header as the format lays it out: signature, version needed, general purpose
  flags, compression method, modification time and date, CRC-32, compressed and uncompressed
  size, the two lengths, then the file name and the extra field.
\<close>

record zip_entry =
  ze_version :: nat
  ze_flags :: nat
  ze_method :: nat
  ze_time :: nat
  ze_date :: nat
  ze_crc :: nat
  ze_csize :: nat
  ze_usize :: nat
  ze_name :: "byte list"
  ze_extra :: "byte list"

definition zip_local_header :: "zip_entry \<Rightarrow> byte list" where
  "zip_local_header e =
     [0x50, 0x4b, 0x03, 0x04] @ le16 (ze_version e) @ le16 (ze_flags e) @ le16 (ze_method e)
       @ le16 (ze_time e) @ le16 (ze_date e) @ le32 (ze_crc e) @ le32 (ze_csize e)
       @ le32 (ze_usize e) @ le16 (length (ze_name e)) @ le16 (length (ze_extra e))
       @ ze_name e @ ze_extra e"

text \<open>The fields fit their widths.\<close>

definition zip_entry_ok :: "zip_entry \<Rightarrow> bool" where
  "zip_entry_ok e =
     (ze_flags e < 65536 \<and> ze_csize e < 4294967296 \<and> length (ze_name e) < 65536
      \<and> length (ze_extra e) < 65536)"

text \<open>
  The data descriptor that follows the data of an entry whose flags have bit 3 set: the
  signature \<open>50 4B 07 08\<close>, the CRC-32, the compressed and the uncompressed size.
\<close>

definition data_descriptor :: "nat \<Rightarrow> nat \<Rightarrow> nat \<Rightarrow> byte list" where
  "data_descriptor crc csize usize = [0x50, 0x4b, 0x07, 0x08] @ le32 crc @ le32 csize @ le32 usize"

text \<open>
  A TAR header block of 512 bytes: the name field of 100 bytes padded with zeros, mode, uid and
  gid (24 bytes), the size as eleven octal digits and a zero byte, modification time and
  checksum (20 bytes), the type flag, the link name (100 bytes), the magic \<open>ustar\<close>, and the
  remaining 250 bytes (version, owner names, device numbers, prefix, padding).
\<close>

fun octal_digits :: "nat \<Rightarrow> nat \<Rightarrow> byte list" where
  "octal_digits 0 n = []"
| "octal_digits (Suc k) n = octal_digits k (n div 8) @ [of_nat (48 + n mod 8)]"

record tar_filler =
  tf_modes :: "byte list"
  tf_times :: "byte list"
  tf_link :: "byte list"
  tf_tail :: "byte list"

definition tar_filler_ok :: "tar_filler \<Rightarrow> bool" where
  "tar_filler_ok f =
     (length (tf_modes f) = 24 \<and> length (tf_times f) = 20 \<and> length (tf_link f) = 100
      \<and> length (tf_tail f) = 250)"

definition tar_header :: "tar_filler \<Rightarrow> byte list \<Rightarrow> byte \<Rightarrow> nat \<Rightarrow> byte list" where
  "tar_header f name typeFlag entrySize =
     take 100 (name @ replicate 100 0) @ tf_modes f @ (octal_digits 11 entrySize @ [0]) @ tf_times f
       @ [typeFlag] @ tf_link f @ bytes_of ''ustar'' @ tf_tail f"

text \<open>Data padded with zeros to whole blocks of 512 bytes.\<close>

definition pad512 :: "byte list \<Rightarrow> byte list" where
  "pad512 bytes = bytes @ replicate ((512 - length bytes mod 512) mod 512) 0"

definition zero_filler :: tar_filler where
  "zero_filler = \<lparr>tf_modes = replicate 24 0, tf_times = replicate 20 0, tf_link = replicate 100 0,
                   tf_tail = replicate 250 0\<rparr>"

text \<open>The 30 bytes of a local file header before the name.\<close>

definition zip_fixed :: "zip_entry \<Rightarrow> byte list" where
  "zip_fixed e =
     [0x50, 0x4b, 0x03, 0x04] @ le16 (ze_version e) @ le16 (ze_flags e) @ le16 (ze_method e)
       @ le16 (ze_time e) @ le16 (ze_date e) @ le32 (ze_crc e) @ le32 (ze_csize e)
       @ le32 (ze_usize e) @ le16 (length (ze_name e)) @ le16 (length (ze_extra e))"

subsection \<open>Sample entries\<close>

definition movie_entry :: zip_entry where
  "movie_entry = \<lparr>ze_version = 20, ze_flags = 0, ze_method = 0, ze_time = 0, ze_date = 0,
                   ze_crc = 0, ze_csize = 3, ze_usize = 3, ze_name = bytes_of ''movie.mkv'',
                   ze_extra = []\<rparr>"

definition clips_directory :: zip_entry where
  "clips_directory = \<lparr>ze_version = 20, ze_flags = 0, ze_method = 0, ze_time = 0, ze_date = 0,
                       ze_crc = 0, ze_csize = 0, ze_usize = 0, ze_name = bytes_of ''clips/'',
                       ze_extra = []\<rparr>"

text \<open>The same directory as a streaming writer stores it: bit 3 of the flags set, the sizes left
  to the data descriptor behind the (empty) data.\<close>

definition flagged_directory :: zip_entry where
  "flagged_directory = clips_directory\<lparr>ze_flags := 8\<rparr>"

text \<open>
  A single TAR block for a directory \<open>d/\<close> whose size field reads \<open>-1000\<close> (octal, that is
  \<open>-512\<close>): the skip \<open>512 + ceil (size / 512) * 512\<close> is then zero.
\<close>

definition negative_size_block :: "byte list" where
  "negative_size_block =
     bytes_of ''d/'' @ replicate 122 0 @ bytes_of ''-1000'' @ replicate 27 0 @ [0x35]
       @ replicate 100 0 @ bytes_of ''ustar'' @ replicate 250 0"

section \<open>Properties of the URL guard\<close>

lemmas validate_defs =
  validateUrl_def validateHost_def startsWith_def LOCALHOST_IPS_def META_DATA_HOSTS_def
  second_octet_def parseInt_def is_js_whitespace_def is_digit_in_def digit_value_def
  digits_value_def

lemmas validate_2_defs =
  validateUrl_2_def validateHost_2_def startsWith_def
  second_octet_def parseInt_def is_js_whitespace_def is_digit_in_def digit_value_def
  digits_value_def

lemma validateHost_listed:
  "invalid_url (validateHost ''127.0.0.1'')"
  "invalid_url (validateHost ''localhost'')"
  "invalid_url (validateHost ''10.1.2.3'')"
  "invalid_url (validateHost ''192.168.0.5'')"
  "invalid_url (validateHost ''172.20.0.1'')"
  "invalid_url (validateHost ''169.254.169.254'')"
  "invalid_url (validateHost ''metadata.google.internal'')"
  "validateHost ''172.15.0.1'' = Inr ()"
  "validateHost ''172.32.0.1'' = Inr ()"
  by (simp_all add: invalid_url_def validate_defs)

text \<open>
  C5. For a URL whose hostname is one of \<open>127.0.0.1\<close>, \<open>localhost\<close>, \<open>10.1.2.3\<close>,
  \<open>192.168.0.5\<close>, \<open>172.20.0.1\<close>, \<open>169.254.169.254\<close>, \<open>metadata.google.internal\<close>,
  \<open>validateUrl\<close> throws an error whose message starts with \<open>Invalid URL\<close>; for the hostnames
  \<open>172.15.0.1\<close> and \<open>172.32.0.1\<close> it returns normally.
\<close>

theorem validateUrl_listed_hosts:
  "(hostname u = Some h \<and>
      h \<in> set [''127.0.0.1'', ''localhost'', ''10.1.2.3'', ''192.168.0.5'', ''172.20.0.1'',
                ''169.254.169.254'', ''metadata.google.internal'']
      \<longrightarrow> invalid_url (validateUrl hostname u))
   \<and> (hostname u = Some h \<and> h \<in> set [''172.15.0.1'', ''172.32.0.1'']
      \<longrightarrow> validateUrl hostname u = Inr ())"
proof (intro conjI impI)
  assume a: "hostname u = Some h \<and>
      h \<in> set [''127.0.0.1'', ''localhost'', ''10.1.2.3'', ''192.168.0.5'', ''172.20.0.1'',
                ''169.254.169.254'', ''metadata.google.internal'']"
  then have v: "validateUrl hostname u = validateHost h" by (simp add: validateUrl_def)
  from a have "h = ''127.0.0.1'' \<or> h = ''localhost'' \<or> h = ''10.1.2.3'' \<or> h = ''192.168.0.5''
      \<or> h = ''172.20.0.1'' \<or> h = ''169.254.169.254'' \<or> h = ''metadata.google.internal''"
    by simp
  then show "invalid_url (validateUrl hostname u)"
    unfolding v using validateHost_listed(1-7) by (elim disjE) (simp_all only:)
next
  assume a: "hostname u = Some h \<and> h \<in> set [''172.15.0.1'', ''172.32.0.1'']"
  then have v: "validateUrl hostname u = validateHost h" by (simp add: validateUrl_def)
  from a have "h = ''172.15.0.1'' \<or> h = ''172.32.0.1''"
    by simp
  then show "validateUrl hostname u = Inr ()"
    unfolding v using validateHost_listed(8-9) by (elim disjE) (simp_all only:)
qed

theorem validateUrl_listed_hosts_witness:
  "invalid_url (validateUrl (\<lambda>u. if u = ''http://172.20.0.1/a.mkv'' then Some ''172.20.0.1'' else None)
             ''http://172.20.0.1/a.mkv'')
   \<and> validateUrl (\<lambda>u. if u = ''http://172.32.0.1/a.mkv'' then Some ''172.32.0.1'' else None)
             ''http://172.32.0.1/a.mkv'' = Inr ()"
  using validateUrl_listed_hosts
          [of "\<lambda>u. if u = ''http://172.20.0.1/a.mkv'' then Some ''172.20.0.1'' else None"
              "''http://172.20.0.1/a.mkv''" "''172.20.0.1''"]
        validateUrl_listed_hosts
          [of "\<lambda>u. if u = ''http://172.32.0.1/a.mkv'' then Some ''172.32.0.1'' else None"
              "''http://172.32.0.1/a.mkv''" "''172.32.0.1''"]
  by simp

text \<open>
  The private-range rules, version by version. The second version of \<open>validateUrl\<close> rejects
  every hostname of the five kinds; the first one rejects four of them.
\<close>

lemma validateUrl_2_private_ranges:
  assumes "hostname u = Some h"
    and "startsWith h ''10.'' \<or> startsWith h ''192.168.'' \<or> startsWith h ''169.254.''
         \<or> (startsWith h ''172.'' \<and> (\<exists>n. second_octet h = Num n \<and> 16 \<le> n \<and> n \<le> 31))
         \<or> h = ''::1'' \<or> h = ''[::1]''"
  shows "\<exists>msg. validateUrl_2 hostname u = Inl (Error msg) \<and> startsWith msg ''Invalid URL''"
  using assms by (auto simp: validateUrl_2_def validateHost_2_def startsWith_def)

lemma validateUrl_private_ranges:
  assumes "hostname u = Some h"
    and "startsWith h ''10.'' \<or> startsWith h ''192.168.''
         \<or> (startsWith h ''172.'' \<and> (\<exists>n. second_octet h = Num n \<and> 16 \<le> n \<and> n \<le> 31))
         \<or> h = ''::1''"
  shows "\<exists>msg. validateUrl hostname u = Inl (Error msg) \<and> startsWith msg ''Invalid URL''"
  using assms
  by (auto simp: validateUrl_def validateHost_def startsWith_def LOCALHOST_IPS_def
      META_DATA_HOSTS_def)

text \<open>
  C6. The claim asks that every hostname beginning with \<open>169.254.\<close> and every loopback IPv6
  literal be rejected. The first version of \<open>validateUrl\<close> accepts the link-local
  host \<open>169.254.0.1\<close> and the bracketed literal \<open>[::1]\<close> (the form \<open>new URL(...).hostname\<close>
  has for an IPv6 host); the second version rejects both.
\<close>

theorem validateUrl_accepts_link_local:
  "validateUrl (\<lambda>u. if u = ''http://169.254.0.1/latest'' then Some ''169.254.0.1'' else None)
      ''http://169.254.0.1/latest'' = Inr ()
   \<and> validateUrl (\<lambda>u. if u = ''http://[::1]/a.mkv'' then Some ''[::1]'' else None)
      ''http://[::1]/a.mkv'' = Inr ()
   \<and> validateUrl_2 (\<lambda>u. if u = ''http://169.254.0.1/latest'' then Some ''169.254.0.1'' else None)
      ''http://169.254.0.1/latest'' = Inl (Error ''Invalid URL: Access to private resources is denied.'')
   \<and> validateUrl_2 (\<lambda>u. if u = ''http://[::1]/a.mkv'' then Some ''[::1]'' else None)
      ''http://[::1]/a.mkv'' = Inl (Error ''Invalid URL: Access to local resources is denied.'')"
  by (simp add: validate_defs validate_2_defs)

subsection \<open>The view-link pattern\<close>

lemma match_here_sound:
  assumes "match_here s = Some f"
  shows "\<exists>post. s = GOOGLE_DRIVE_LEAD @ f @ ''/view'' @ post \<and> f \<noteq> [] \<and> (\<forall>c \<in> set f. is_file_id_char c)"
proof -
  define r where "r = drop (length GOOGLE_DRIVE_LEAD) s"
  from assms have p: "prefix GOOGLE_DRIVE_LEAD s"
    and f: "f = takeWhile is_file_id_char r" and ne: "f \<noteq> []"
    and v: "prefix ''/view'' (dropWhile is_file_id_char r)"
    unfolding match_here_def Let_def r_def by (auto split: if_splits)
  from p have s: "s = GOOGLE_DRIVE_LEAD @ r"
    unfolding r_def by (auto simp: prefix_def)
  from v obtain post where d: "dropWhile is_file_id_char r = ''/view'' @ post"
    by (auto simp: prefix_def)
  have "r = f @ ''/view'' @ post"
    using takeWhile_dropWhile_id[of is_file_id_char r] f d by simp
  moreover have "\<forall>c \<in> set f. is_file_id_char c"
    unfolding f by (auto dest: set_takeWhileD)
  ultimately show ?thesis using s ne by blast
qed

lemma match_here_complete:
  assumes "f \<noteq> []" "\<forall>c \<in> set f. is_file_id_char c"
  shows "match_here (GOOGLE_DRIVE_LEAD @ f @ ''/view'' @ post) = Some f"
proof -
  have nid: "\<not> is_file_id_char CHR ''/''" by (simp add: is_file_id_char_def)
  have tw: "takeWhile is_file_id_char (f @ ''/view'' @ post) = f"
    using assms(2) nid by (simp add: takeWhile_append2)
  have dw: "dropWhile is_file_id_char (f @ ''/view'' @ post) = ''/view'' @ post"
    using assms(2) nid by (simp add: dropWhile_append2)
  show ?thesis
    unfolding match_here_def Let_def using tw dw assms(1) by (simp)
qed

lemma exec_sound:
  "GOOGLE_DRIVE_REGEX_exec u = Some f \<Longrightarrow> matches_view_link u"
proof (induction u)
  case Nil then show ?case by simp
next
  case (Cons c cs)
  show ?case
  proof (cases "match_here (c # cs)")
    case None
    with Cons have "matches_view_link cs" by simp
    then obtain pre fileId post where "cs = pre @ GOOGLE_DRIVE_LEAD @ fileId @ ''/view'' @ post"
       "fileId \<noteq> []" "\<forall>c \<in> set fileId. is_file_id_char c" unfolding matches_view_link_def by blast
    then have "c # cs = (c # pre) @ GOOGLE_DRIVE_LEAD @ fileId @ ''/view'' @ post" by simp
    then show ?thesis unfolding matches_view_link_def using \<open>fileId \<noteq> []\<close> \<open>\<forall>c \<in> set fileId. is_file_id_char c\<close> by blast
  next
    case (Some g)
    from match_here_sound[OF Some] obtain post where "c # cs = [] @ GOOGLE_DRIVE_LEAD @ g @ ''/view'' @ post" "g \<noteq> []" "\<forall>c \<in> set g. is_file_id_char c" by auto
    then show ?thesis unfolding matches_view_link_def by blast
  qed
qed

lemma exec_complete_aux:
  assumes "f \<noteq> []" "\<forall>c \<in> set f. is_file_id_char c"
  shows "GOOGLE_DRIVE_REGEX_exec (pre @ GOOGLE_DRIVE_LEAD @ f @ ''/view'' @ post) \<noteq> None"
proof (induction pre)
  case Nil
  have "GOOGLE_DRIVE_LEAD @ f @ ''/view'' @ post \<noteq> []" by (simp add: GOOGLE_DRIVE_LEAD_def)
  then obtain c cs where e: "GOOGLE_DRIVE_LEAD @ f @ ''/view'' @ post = c # cs" by (cases "GOOGLE_DRIVE_LEAD @ f @ ''/view'' @ post") auto
  have "match_here (c # cs) = Some f" using match_here_complete[OF assms, of post] e by simp
  then show ?case using e by simp
next
  case (Cons a pre)
  then show ?case by (simp split: option.splits)
qed

lemma exec_None_iff: "GOOGLE_DRIVE_REGEX_exec u = None \<longleftrightarrow> \<not> matches_view_link u"
proof
  assume "GOOGLE_DRIVE_REGEX_exec u = None"
  then show "\<not> matches_view_link u"
    unfolding matches_view_link_def using exec_complete_aux by blast
next
  assume "\<not> matches_view_link u"
  then show "GOOGLE_DRIVE_REGEX_exec u = None" using exec_sound by (cases "GOOGLE_DRIVE_REGEX_exec u") auto
qed


text \<open>
  C7. The view link \<open>https://drive.google.com/file/d/ABC123/view\<close> is rewritten to a URL that
  contains \<open>id=ABC123\<close>, flagged as Google Drive; a URL that neither matches the view-link
  pattern nor contains \<open>drive.usercontent.google.com\<close> comes back unchanged and unflagged.
\<close>

theorem resolveGoogleDriveUrl_rewrite:
  "str_includes (url (resolveGoogleDriveUrl ''https://drive.google.com/file/d/ABC123/view'')) ''id=ABC123''
   \<and> isGoogleDrive (resolveGoogleDriveUrl ''https://drive.google.com/file/d/ABC123/view'')
   \<and> (\<not> matches_view_link u \<and> \<not> str_includes u ''drive.usercontent.google.com''
        \<longrightarrow> resolveGoogleDriveUrl u = \<lparr>url = u, isGoogleDrive = False\<rparr>)"
proof (intro conjI impI)
  have r: "resolveGoogleDriveUrl ''https://drive.google.com/file/d/ABC123/view'' =
      \<lparr>url = ''https://drive.usercontent.google.com/download?id=ABC123&export=download&confirm=t'',
       isGoogleDrive = True\<rparr>"
    by (simp add: resolveGoogleDriveUrl_def match_here_def GOOGLE_DRIVE_LEAD_def
        is_file_id_char_def)
  show "str_includes (url (resolveGoogleDriveUrl ''https://drive.google.com/file/d/ABC123/view'')) ''id=ABC123''"
    unfolding r by simp
  show "isGoogleDrive (resolveGoogleDriveUrl ''https://drive.google.com/file/d/ABC123/view'')"
    unfolding r by simp
next
  assume "\<not> matches_view_link u \<and> \<not> str_includes u ''drive.usercontent.google.com''"
  then have "GOOGLE_DRIVE_REGEX_exec u = None"
    and "\<not> str_includes u ''drive.usercontent.google.com''"
    by (simp_all add: exec_None_iff)
  then show "resolveGoogleDriveUrl u = \<lparr>url = u, isGoogleDrive = False\<rparr>"
    by (simp add: resolveGoogleDriveUrl_def)
qed

theorem resolveGoogleDriveUrl_rewrite_witness:
  "\<not> matches_view_link ''https://example.com/video/trailer.mp4''
   \<and> \<not> str_includes ''https://example.com/video/trailer.mp4'' ''drive.usercontent.google.com''
   \<and> resolveGoogleDriveUrl ''https://example.com/video/trailer.mp4''
        = \<lparr>url = ''https://example.com/video/trailer.mp4'', isGoogleDrive = False\<rparr>"
proof -
  have n: "GOOGLE_DRIVE_REGEX_exec ''https://example.com/video/trailer.mp4'' = None"
    by (simp add: match_here_def GOOGLE_DRIVE_LEAD_def)
  have m: "\<not> matches_view_link ''https://example.com/video/trailer.mp4''"
    by (rule exec_None_iff [THEN iffD1, OF n])
  have i: "\<not> str_includes ''https://example.com/video/trailer.mp4'' ''drive.usercontent.google.com''"
    by simp
  from resolveGoogleDriveUrl_rewrite [of "''https://example.com/video/trailer.mp4''"] m i
  show ?thesis by blast
qed

section \<open>Properties of the metadata clean-up\<close>

lemma normalize_undefined: "normalizeMediaInfo v = JUndefined \<longleftrightarrow> v = JUndefined"
proof (cases v)
  case (JObject kvs)
  then show ?thesis
    by (cases "map_of kvs ''#value''") (simp_all add: wrapper_value_def)
qed simp_all








section \<open>Properties of the bounded stream fetcher\<close>

subsection \<open>The copy loop\<close>

lemma length_buffer_set:
  "off + length src \<le> length buf \<Longrightarrow> length (buffer_set buf src off) = length buf"
  by (simp add: buffer_set_def)

lemma take_buffer_set:
  "off + length src \<le> length buf \<Longrightarrow>
   take (off + length src) (buffer_set buf src off) = take off buf @ src"
  by (simp add: buffer_set_def)

lemma fileBuffer_length: "copy_inv s \<Longrightarrow> length (fileBuffer s) = offset s"
  by (simp add: copy_inv_def fileBuffer_def)

text \<open>One guarded write of a chunk that fits.\<close>

lemma write_whole:
  assumes "copy_inv s" "length v \<le> SAFE_LIMIT - offset s"
  defines "s' \<equiv> s\<lparr>tempBuffer := buffer_set (tempBuffer s) v (offset s), offset := offset s + length v\<rparr>"
  shows "copy_inv s'" "fileBuffer s' = fileBuffer s @ v"
proof -
  have fit: "offset s + length v \<le> length (tempBuffer s)"
    using assms(1,2) by (auto simp: copy_inv_def)
  show "copy_inv s'"
    using assms(1,2) fit by (auto simp: copy_inv_def s'_def length_buffer_set)
  show "fileBuffer s' = fileBuffer s @ v"
    using take_buffer_set[OF fit] by (simp add: fileBuffer_def s'_def)
qed

text \<open>One guarded write of the part of a chunk that fits.\<close>

lemma write_prefix:
  assumes "copy_inv s" "length v > SAFE_LIMIT - offset s"
  defines "s' \<equiv> s\<lparr>tempBuffer := buffer_set (tempBuffer s) (take (SAFE_LIMIT - offset s) v) (offset s),
                   offset := offset s + (SAFE_LIMIT - offset s)\<rparr>"
  shows "copy_inv s'" "fileBuffer s' = fileBuffer s @ take (SAFE_LIMIT - offset s) v" "offset s' = SAFE_LIMIT"
proof -
  let ?p = "take (SAFE_LIMIT - offset s) v"
  have lp: "length ?p = SAFE_LIMIT - offset s" using assms(2) by simp
  have fit: "offset s + length ?p \<le> length (tempBuffer s)"
    using assms(1) lp by (auto simp: copy_inv_def)
  show o: "offset s' = SAFE_LIMIT" using assms(1) by (simp add: s'_def copy_inv_def)
  show "copy_inv s'"
    using assms(1) fit o by (simp add: copy_inv_def s'_def length_buffer_set del: length_take)
  have "take (offset s + length ?p) (buffer_set (tempBuffer s) ?p (offset s)) = take (offset s) (tempBuffer s) @ ?p"
    by (rule take_buffer_set[OF fit])
  then show "fileBuffer s' = fileBuffer s @ ?p"
    unfolding lp by (simp add: fileBuffer_def s'_def)
qed

lemma copy_loop_buffer:
  assumes "copy_inv s" "copy_loop evs s = (err, s')"
  shows "copy_inv s' \<and> fileBuffer s' = take SAFE_LIMIT (fileBuffer s @ concat (chunks_before evs))"
  using assms
proof (induction evs s arbitrary: err s' rule: copy_loop.induct)
  case (1 s)
  then have "s' = s\<lparr>unread := []\<rparr>" by simp
  then show ?case using "1.prems"(1) fileBuffer_length[OF "1.prems"(1)]
    by (simp add: copy_inv_def fileBuffer_def)
next
  case (2 e rest s)
  then have "s' = s\<lparr>unread := rest\<rparr>" by simp
  then show ?case using "2.prems"(1) fileBuffer_length[OF "2.prems"(1)]
    by (simp add: copy_inv_def fileBuffer_def)
next
  case (3 v rest s)
  show ?case
  proof (cases "length v > SAFE_LIMIT - offset s")
    case True
    define t where "t = s\<lparr>tempBuffer := buffer_set (tempBuffer s) (take (SAFE_LIMIT - offset s) v) (offset s),
                   offset := offset s + (SAFE_LIMIT - offset s)\<rparr>"
    have s': "s' = t\<lparr>cancelled := True, unread := rest\<rparr>"
      using "3.prems"(2) True by (simp add: t_def Let_def)
    note w = write_prefix[OF "3.prems"(1) True, folded t_def]
    have fb: "fileBuffer s' = fileBuffer t" and inv: "copy_inv s' = copy_inv t"
      by (simp_all add: s' fileBuffer_def copy_inv_def)
    have "take SAFE_LIMIT (fileBuffer s @ concat (chunks_before (Chunk v # rest)))
        = fileBuffer s @ take (SAFE_LIMIT - offset s) v"
      using True fileBuffer_length[OF "3.prems"(1)] "3.prems"(1)
      by (simp add: copy_inv_def)
    then show ?thesis using w fb inv by simp
  next
    case False
    define t where "t = s\<lparr>tempBuffer := buffer_set (tempBuffer s) v (offset s), offset := offset s + length v\<rparr>"
    from False have le: "length v \<le> SAFE_LIMIT - offset s" by simp
    note w = write_whole[OF "3.prems"(1) le, folded t_def]
    have c: "copy_loop rest t = (err, s')"
      using "3.prems"(2) False by (simp add: t_def Let_def)
    have "copy_inv s' \<and> fileBuffer s' = take SAFE_LIMIT (fileBuffer t @ concat (chunks_before rest))"
      using "3.IH"[OF refl, of err s'] False w(1) c by (simp add: t_def)
    then show ?thesis using w(2) by simp
  qed
qed

lemma u16_at_less: "u16_at chunk i < 65536"
proof -
  let ?a = "unat (chunk ! i)" and ?b = "unat (chunk ! (i + 1))"
  have a: "?a < 2 ^ 8" and b: "?b < 2 ^ 8"
    using unsigned_less[of "chunk ! i", where 'a = nat] unsigned_less[of "chunk ! (i + 1)", where 'a = nat] by simp_all
  have ta: "take_bit 16 ?a = ?a"
    using a by (simp add: take_bit_nat_eq_self)
  have tb: "take_bit 8 ?b = ?b"
    using b by (simp add: take_bit_nat_eq_self)
  have "take_bit 16 (push_bit 8 ?b) = push_bit 8 (take_bit 8 ?b)"
    by (simp add: take_bit_push_bit)
  then have "take_bit 16 (?a OR push_bit 8 ?b) = ?a OR push_bit 8 ?b"
    using ta tb by (simp only: take_bit_or)
  then have "?a OR push_bit 8 ?b = take_bit 16 (?a OR push_bit 8 ?b)" by simp
  also have "\<dots> < 2 ^ 16" by (rule take_bit_nat_less_exp)
  finally show ?thesis by (simp add: u16_at_def)
qed

lemma dataOffset_less: "dataOffset chunk < SAFE_LIMIT"
  using u16_at_less[of chunk 26] u16_at_less[of chunk 28]
  by (simp add: dataOffset_def SAFE_LIMIT_def)


lemma copy_loop_offset_mono:
  "copy_loop evs s = (err, s') \<Longrightarrow> offset s \<le> offset s'"
proof (induction evs s arbitrary: err s' rule: copy_loop.induct)
  case (1 s)
  then show ?case by auto
next
  case (2 e rest s)
  then show ?case by auto
next
  case (3 v rest s)
  show ?case
  proof (cases "length v > SAFE_LIMIT - offset s")
    case True
    then show ?thesis using "3.prems" by (auto simp: Let_def)
  next
    case False
    define t where "t = s\<lparr>tempBuffer := buffer_set (tempBuffer s) v (offset s), offset := offset s + length v\<rparr>"
    have c: "copy_loop rest t = (err, s')"
      using "3.prems" False by (simp add: t_def Let_def)
    have "offset t \<le> offset s'"
      using "3.IH"[OF refl, of err s'] False c by (simp add: t_def)
    then show ?thesis by (simp add: t_def)
  qed
qed

text \<open>Chunks that fit are copied whole, and the loop goes on with what follows them.\<close>

lemma copy_loop_fitting:
  assumes "copy_inv s" "offset s + length (concat cs) \<le> SAFE_LIMIT"
  shows "\<exists>t. copy_loop (map Chunk cs @ rest) s = copy_loop rest t \<and> copy_inv t
            \<and> fileBuffer t = fileBuffer s @ concat cs
            \<and> offset t = offset s + length (concat cs)
            \<and> cancelled t = cancelled s"
  using assms
proof (induction cs arbitrary: s)
  case Nil
  then have "copy_loop (map Chunk [] @ rest) s = copy_loop rest s \<and> copy_inv s
            \<and> fileBuffer s = fileBuffer s @ concat []
            \<and> offset s = offset s + length (concat ([] :: byte list list))
            \<and> cancelled s = cancelled s" by simp
  then show ?case by blast
next
  case (Cons v cs)
  define t where "t = s\<lparr>tempBuffer := buffer_set (tempBuffer s) v (offset s), offset := offset s + length v\<rparr>"
  have le: "length v \<le> SAFE_LIMIT - offset s" using Cons.prems(2) by simp
  note w = write_whole[OF Cons.prems(1) le, folded t_def]
  have step: "copy_loop (map Chunk (v # cs) @ rest) s = copy_loop (map Chunk cs @ rest) t"
    using le by (simp add: t_def Let_def)
  have "offset t + length (concat cs) \<le> SAFE_LIMIT"
    using Cons.prems(2) by (simp add: t_def)
  from Cons.IH[OF w(1) this] obtain t' where
    t': "copy_loop (map Chunk cs @ rest) t = copy_loop rest t'" "copy_inv t'"
        "fileBuffer t' = fileBuffer t @ concat cs" "offset t' = offset t + length (concat cs)"
        "cancelled t' = cancelled t"
    by blast
  have "copy_loop (map Chunk (v # cs) @ rest) s = copy_loop rest t'"
    using step t'(1) by simp
  moreover have "fileBuffer t' = fileBuffer s @ concat (v # cs)"
    using t'(3) w(2) by simp
  moreover have "offset t' = offset s + length (concat (v # cs))"
    using t'(4) by (simp add: t_def)
  moreover have "cancelled t' = cancelled s"
    using t'(5) by (simp add: t_def)
  ultimately show ?case using t'(2) by blast
qed

text \<open>The first chunk that does not fit ends the loop: the reader is cancelled there and
  nothing after it is read.\<close>

lemma copy_loop_overflow:
  assumes "copy_inv s" "offset s + length (concat cs) > SAFE_LIMIT"
  shows "\<exists>pre v post s'. cs = pre @ v # post
            \<and> offset s + length (concat pre) \<le> SAFE_LIMIT
            \<and> SAFE_LIMIT < offset s + length (concat pre) + length v
            \<and> copy_loop (map Chunk cs) s = (None, s')
            \<and> cancelled s' \<and> unread s' = map Chunk post \<and> offset s' = SAFE_LIMIT"
  using assms
proof (induction cs arbitrary: s)
  case Nil
  then show ?case by (simp add: copy_inv_def)
next
  case (Cons v cs)
  show ?case
  proof (cases "length v > SAFE_LIMIT - offset s")
    case True
    define s' where "s' = s\<lparr>tempBuffer := buffer_set (tempBuffer s) (take (SAFE_LIMIT - offset s) v) (offset s),
                      offset := offset s + (SAFE_LIMIT - offset s),
                      cancelled := True,
                      unread := map Chunk cs\<rparr>"
    have "copy_loop (map Chunk (v # cs)) s = (None, s')"
      using True by (simp add: s'_def Let_def)
    moreover have "cancelled s'" "unread s' = map Chunk cs" by (simp_all add: s'_def)
    moreover have "offset s' = SAFE_LIMIT" using Cons.prems(1) by (simp add: s'_def copy_inv_def)
    moreover have "v # cs = [] @ v # cs" by simp
    moreover have "offset s + length (concat ([] :: byte list list)) \<le> SAFE_LIMIT"
      using Cons.prems(1) by (simp add: copy_inv_def)
    moreover have "SAFE_LIMIT < offset s + length (concat ([] :: byte list list)) + length v"
      using True by simp
    ultimately show ?thesis by blast
  next
    case False
    define t where "t = s\<lparr>tempBuffer := buffer_set (tempBuffer s) v (offset s), offset := offset s + length v\<rparr>"
    from False have le: "length v \<le> SAFE_LIMIT - offset s" by simp
    note w = write_whole[OF Cons.prems(1) le, folded t_def]
    have step: "copy_loop (map Chunk (v # cs)) s = copy_loop (map Chunk cs) t"
      using le by (simp add: t_def Let_def)
    have "offset t + length (concat cs) > SAFE_LIMIT"
      using Cons.prems(2) by (simp add: t_def)
    from Cons.IH[OF w(1) this] obtain pre u post s' where
      h: "cs = pre @ u # post" "offset t + length (concat pre) \<le> SAFE_LIMIT"
         "SAFE_LIMIT < offset t + length (concat pre) + length u"
         "copy_loop (map Chunk cs) t = (None, s')" "cancelled s'" "unread s' = map Chunk post"
         "offset s' = SAFE_LIMIT"
      by blast
    have "v # cs = (v # pre) @ u # post" using h(1) by simp
    moreover have "offset s + length (concat (v # pre)) \<le> SAFE_LIMIT"
      using h(2) by (simp add: t_def)
    moreover have "SAFE_LIMIT < offset s + length (concat (v # pre)) + length u"
      using h(3) by (simp add: t_def)
    moreover have "copy_loop (map Chunk (v # cs)) s = (None, s')"
      using step h(4) by simp
    ultimately show ?thesis using h(5,6,7) by blast
  qed
qed

subsection \<open>The first chunk and the whole \<open>try\<close> block\<close>

lemma copy_first_chunk_facts:
  "copy_inv (copy_first_chunk r)"
  "fileBuffer (copy_first_chunk r) = take SAFE_LIMIT (pending_bytes r)"
  "offset (copy_first_chunk r) = min SAFE_LIMIT (length (pending_bytes r))"
  "cancelled (copy_first_chunk r) = (length (pending_bytes r) > SAFE_LIMIT \<and> \<not> isZipCompressed r)"
  "unread (copy_first_chunk r) = finalReader r"
proof -
  define s0 where "s0 = \<lparr>offset = 0, tempBuffer = replicate SAFE_LIMIT (0::byte), cancelled = False,
                unread = finalReader r\<rparr>"
  have inv0: "copy_inv s0" by (simp add: s0_def copy_inv_def)
  have fb0: "fileBuffer s0 = []" by (simp add: s0_def fileBuffer_def)
  have o0: "offset s0 = 0" by (simp add: s0_def)
  have all: "copy_inv (copy_first_chunk r)
    \<and> fileBuffer (copy_first_chunk r) = take SAFE_LIMIT (pending_bytes r)
    \<and> offset (copy_first_chunk r) = min SAFE_LIMIT (length (pending_bytes r))
    \<and> cancelled (copy_first_chunk r) = (length (pending_bytes r) > SAFE_LIMIT \<and> \<not> isZipCompressed r)
    \<and> unread (copy_first_chunk r) = finalReader r"
  proof (cases "firstChunk r")
    case None
    then have "copy_first_chunk r = s0" by (simp add: copy_first_chunk_def s0_def)
    then show ?thesis using inv0 fb0 None by (simp add: pending_bytes_def s0_def)
  next
    case (Some c)
    show ?thesis
    proof (cases "length c > SAFE_LIMIT - offset s0")
      case True
      define t where "t = s0\<lparr>tempBuffer := buffer_set (tempBuffer s0) (take (SAFE_LIMIT - offset s0) c) (offset s0),
                   offset := offset s0 + (SAFE_LIMIT - offset s0)\<rparr>"
      have e: "copy_first_chunk r = t\<lparr>cancelled := \<not> isZipCompressed r\<rparr>"
        using Some True unfolding copy_first_chunk_def s0_def[symmetric] t_def by (simp add: Let_def)
      note w = write_prefix[OF inv0 True, folded t_def]
      have "copy_inv (copy_first_chunk r)" using w(1) by (simp add: e copy_inv_def)
      moreover have "fileBuffer (copy_first_chunk r) = take SAFE_LIMIT (pending_bytes r)"
        using w(2) fb0 o0 Some by (simp add: e fileBuffer_def pending_bytes_def)
      moreover have "offset (copy_first_chunk r) = min SAFE_LIMIT (length (pending_bytes r))"
        using w(3) True o0 Some by (simp add: e pending_bytes_def)
      moreover have "cancelled (copy_first_chunk r) = (length (pending_bytes r) > SAFE_LIMIT \<and> \<not> isZipCompressed r)"
        using True o0 Some by (simp add: e pending_bytes_def)
      moreover have "unread (copy_first_chunk r) = finalReader r"
        by (simp add: e t_def s0_def)
      ultimately show ?thesis by blast
    next
      case False
      define t where "t = s0\<lparr>tempBuffer := buffer_set (tempBuffer s0) c (offset s0), offset := offset s0 + length c\<rparr>"
      from False have le: "length c \<le> SAFE_LIMIT - offset s0" by simp
      have e: "copy_first_chunk r = t"
        using Some False unfolding copy_first_chunk_def s0_def[symmetric] t_def by (simp add: Let_def)
      note w = write_whole[OF inv0 le, folded t_def]
      have "copy_inv (copy_first_chunk r)" using w(1) by (simp add: e)
      moreover have "fileBuffer (copy_first_chunk r) = take SAFE_LIMIT (pending_bytes r)"
        using w(2) fb0 o0 Some le by (simp add: e pending_bytes_def)
      moreover have "offset (copy_first_chunk r) = min SAFE_LIMIT (length (pending_bytes r))"
        using le o0 Some by (simp add: e t_def pending_bytes_def)
      moreover have "cancelled (copy_first_chunk r) = (length (pending_bytes r) > SAFE_LIMIT \<and> \<not> isZipCompressed r)"
        using le o0 Some by (simp add: e t_def s0_def pending_bytes_def)
      moreover have "unread (copy_first_chunk r) = finalReader r"
        by (simp add: e t_def s0_def)
      ultimately show ?thesis by blast
    qed
  qed
  from all show "copy_inv (copy_first_chunk r)"
    "fileBuffer (copy_first_chunk r) = take SAFE_LIMIT (pending_bytes r)"
    "offset (copy_first_chunk r) = min SAFE_LIMIT (length (pending_bytes r))"
    "cancelled (copy_first_chunk r) = (length (pending_bytes r) > SAFE_LIMIT \<and> \<not> isZipCompressed r)"
    "unread (copy_first_chunk r) = finalReader r"
    by blast+
qed

text \<open>Whatever the reads, the \<open>try\<close> block leaves in the buffer the first \<open>SAFE_LIMIT\<close> bytes of
  the pending chunk followed by the chunks read before the first failure.\<close>

lemma copy_body_buffer:
  assumes "copy_body r = (err, s)"
  shows "copy_inv s"
    and "fileBuffer s = take SAFE_LIMIT (pending_bytes r @ concat (chunks_before (finalReader r)))"
proof -
  note f = copy_first_chunk_facts[of r]
  have "copy_inv s \<and> fileBuffer s = take SAFE_LIMIT (pending_bytes r @ concat (chunks_before (finalReader r)))"
  proof (cases "offset (copy_first_chunk r) < SAFE_LIMIT")
    case True
    then have c: "copy_loop (finalReader r) (copy_first_chunk r) = (err, s)"
      using assms by (simp add: copy_body_def Let_def)
    have short: "length (pending_bytes r) < SAFE_LIMIT" using True f(3) by simp
    from copy_loop_buffer[OF f(1) c] show ?thesis using f(2) short by simp
  next
    case False
    then have e: "s = copy_first_chunk r"
      using assms by (simp add: copy_body_def Let_def)
    have long: "SAFE_LIMIT \<le> length (pending_bytes r)" using False f(3) by simp
    then show ?thesis using f(1,2) e by simp
  qed
  then show "copy_inv s"
    and "fileBuffer s = take SAFE_LIMIT (pending_bytes r @ concat (chunks_before (finalReader r)))"
    by blast+
qed

subsection \<open>Opening the readers\<close>

lemma open_reader_unwraps:
  assumes "unwraps c"
  shows "open_reader inflate (Some c) rest =
           \<lparr>firstChunk = None, finalReader = inflate (Chunk (drop (dataOffset c) c) # rest),
            isZipCompressed = True\<rparr>"
  using assms by (simp add: open_reader_def unwraps_def Let_def)

lemma open_reader_plain:
  assumes "\<not> unwraps c"
  shows "firstChunk (open_reader inflate (Some c) rest) = Some c"
    and "finalReader (open_reader inflate (Some c) rest) = rest"
    and "isZipCompressed (open_reader inflate (Some c) rest) \<longrightarrow> length c < SAFE_LIMIT"
proof -
  show "firstChunk (open_reader inflate (Some c) rest) = Some c"
    using assms by (simp add: open_reader_def unwraps_def Let_def)
  show "finalReader (open_reader inflate (Some c) rest) = rest"
    using assms by (simp add: open_reader_def unwraps_def Let_def)
  show "isZipCompressed (open_reader inflate (Some c) rest) \<longrightarrow> length c < SAFE_LIMIT"
  proof
    assume z: "isZipCompressed (open_reader inflate (Some c) rest)"
    have "length c \<le> dataOffset c"
    proof (rule ccontr)
      assume "\<not> length c \<le> dataOffset c"
      then have l: "length c > dataOffset c" by simp
      from z have "has_zip_signature c \<and> u16_at c 8 = 8"
        by (simp add: open_reader_def Let_def split: if_splits)
      with l assms show False by (simp add: unwraps_def)
    qed
    then show "length c < SAFE_LIMIT" using dataOffset_less[of c] by simp
  qed
qed

lemma pending_payload:
  "pending_bytes (open_reader inflate (Some c) rest)
     @ concat (chunks_before (finalReader (open_reader inflate (Some c) rest)))
   = concat (chunks_before (payload_reads inflate (Chunk c # rest)))"
proof (cases "unwraps c")
  case True
  then show ?thesis
    by (simp add: open_reader_unwraps payload_reads_def pending_bytes_def)
next
  case False
  then show ?thesis
    using open_reader_plain(1,2)[OF False, of inflate rest]
    by (simp add: payload_reads_def pending_bytes_def)
qed

lemma catch_stream_error_Inr:
  "catch_stream_error (err, s) = Inr s' \<Longrightarrow> s' = s"
  by (cases err) (simp_all add: catch_stream_error_def Let_def split: if_splits)

text \<open>Whenever a buffer is returned, it holds the first \<open>SAFE_LIMIT\<close> bytes of the chunks that the
  payload stream delivers before its first failure.\<close>

lemma read_body_buffer:
  assumes "read_body inflate (Some reads) = Inr s"
  shows "copy_inv s"
    and "fileBuffer s = take SAFE_LIMIT (concat (chunks_before (payload_reads inflate reads)))"
proof -
  have "copy_inv s \<and> fileBuffer s = take SAFE_LIMIT (concat (chunks_before (payload_reads inflate reads)))"
  proof (cases reads)
    case Nil
    obtain err t where c: "copy_body (open_reader inflate None []) = (err, t)"
      by (cases "copy_body (open_reader inflate None [])")
    from assms Nil c have "s = t"
      by (simp add: read_body_def catch_stream_error_Inr)
    then show ?thesis
      using copy_body_buffer[OF c] Nil
      by (simp add: open_reader_def pending_bytes_def payload_reads_def)
  next
    case (Cons a rest)
    show ?thesis
    proof (cases a)
      case (Failure e)
      with assms Cons show ?thesis by (simp add: read_body_def)
    next
      case (Chunk c)
      obtain err t where c: "copy_body (open_reader inflate (Some c) rest) = (err, t)"
        by (cases "copy_body (open_reader inflate (Some c) rest)")
      from assms Cons Chunk c have "s = t"
        by (simp add: read_body_def catch_stream_error_Inr)
      then show ?thesis
        using copy_body_buffer[OF c] pending_payload[of inflate c rest] Cons Chunk
        by simp
    qed
  qed
  then show "copy_inv s"
    and "fileBuffer s = take SAFE_LIMIT (concat (chunks_before (payload_reads inflate reads)))"
    by blast+
qed

lemma read_body_bound:
  assumes "read_body inflate responseBody = Inr s"
  shows "length (fileBuffer s) = offset s \<and> offset s \<le> SAFE_LIMIT"
proof (cases responseBody)
  case None
  with assms show ?thesis by (simp add: read_body_def)
next
  case (Some reads)
  with assms have "copy_inv s" using read_body_buffer(1) by blast
  then show ?thesis using fileBuffer_length by (simp add: copy_inv_def)
qed

lemma copy_loop_no_failure:
  "(\<forall>e. Failure e \<notin> set evs) \<Longrightarrow> fst (copy_loop evs s) = None"
proof (induction evs s rule: copy_loop.induct)
  case (1 s)
  then show ?case by simp
next
  case (2 e rest s)
  then have "Failure e \<notin> set (Failure e # rest)" by blast
  then show ?case by simp
next
  case (3 v rest s)
  then show ?case by (simp add: Let_def)
qed

lemma copy_body_no_failure:
  "(\<forall>e. Failure e \<notin> set (finalReader r)) \<Longrightarrow> fst (copy_body r) = None"
  using copy_loop_no_failure[of "finalReader r" "copy_first_chunk r"]
  by (simp add: copy_body_def Let_def)

lemma catch_no_error:
  "fst outcome = None \<Longrightarrow> catch_stream_error outcome = Inr (snd outcome)"
  by (cases outcome) (simp add: catch_stream_error_def)

lemma read_body_returns:
  assumes "\<forall>e. Failure e \<notin> set (finalReader (open_reader inflate (Some c) rest))"
  shows "\<exists>s. read_body inflate (Some (Chunk c # rest)) = Inr s"
  using catch_no_error[OF copy_body_no_failure[OF assms]]
  by (simp add: read_body_def)


subsection \<open>The cap\<close>

lemma read_body_chunk:
  "read_body inflate (Some (Chunk c # rest)) = catch_stream_error (copy_body (open_reader inflate (Some c) rest))"
  by (simp add: read_body_def)

text \<open>A body of chunks that fit, with no unwrap: everything is copied and no reader is cancelled.\<close>

lemma read_body_fits:
  assumes "\<not> unwraps c" "length (concat (c # cs)) \<le> SAFE_LIMIT"
  shows "\<exists>s. read_body inflate (Some (map Chunk (c # cs))) = Inr s \<and> \<not> cancelled s
            \<and> fileBuffer s = concat (c # cs)"
proof -
  define r where "r = open_reader inflate (Some c) (map Chunk cs)"
  note p = open_reader_plain[OF assms(1), of inflate "map Chunk cs", folded r_def]
  have pb: "pending_bytes r = c" using p(1) by (simp add: pending_bytes_def)
  note f = copy_first_chunk_facts[of r]
  have lc: "length c \<le> SAFE_LIMIT" using assms(2) by simp
  have nc: "\<not> cancelled (copy_first_chunk r)" using f(4) pb lc by simp
  have o: "offset (copy_first_chunk r) = length c" using f(3) pb lc by simp
  have fb: "fileBuffer (copy_first_chunk r) = c" using f(2) pb lc by simp
  have "\<exists>s. copy_body r = (None, s) \<and> \<not> cancelled s \<and> fileBuffer s = concat (c # cs)"
  proof (cases "offset (copy_first_chunk r) < SAFE_LIMIT")
    case True
    have fit: "offset (copy_first_chunk r) + length (concat cs) \<le> SAFE_LIMIT"
      using assms(2) o by simp
    from copy_loop_fitting[OF f(1) fit, of "[]"] obtain t where
      t: "copy_loop (map Chunk cs @ []) (copy_first_chunk r) = copy_loop [] t"
         "fileBuffer t = fileBuffer (copy_first_chunk r) @ concat cs"
         "cancelled t = cancelled (copy_first_chunk r)"
      by blast
    have "copy_body r = (None, t\<lparr>unread := []\<rparr>)"
      using True t(1) p(2) by (simp add: copy_body_def Let_def)
    moreover have "\<not> cancelled (t\<lparr>unread := []\<rparr>)" using t(3) nc by simp
    moreover have "fileBuffer (t\<lparr>unread := []\<rparr>) = concat (c # cs)"
      using t(2) fb by (simp add: fileBuffer_def)
    ultimately show ?thesis by blast
  next
    case False
    then have full: "length c = SAFE_LIMIT" using o lc by simp
    then have "concat cs = []" using assms(2) by simp
    moreover have "copy_body r = (None, copy_first_chunk r)"
      using False by (simp add: copy_body_def Let_def)
    ultimately show ?thesis using nc fb by simp
  qed
  then obtain s where "copy_body r = (None, s)" "\<not> cancelled s" "fileBuffer s = concat (c # cs)"
    by blast
  then have "read_body inflate (Some (map Chunk (c # cs))) = Inr s \<and> \<not> cancelled s
            \<and> fileBuffer s = concat (c # cs)"
    by (simp add: read_body_def r_def catch_stream_error_def)
  then show ?thesis by blast
qed

text \<open>A body of chunks with no unwrap always returns, with the first \<open>SAFE_LIMIT\<close> bytes.\<close>

lemma read_body_chunks_only:
  assumes "\<not> unwraps c"
  shows "\<exists>s. read_body inflate (Some (map Chunk (c # cs))) = Inr s
            \<and> fileBuffer s = take SAFE_LIMIT (concat (c # cs))"
proof -
  have nf: "\<forall>e. Failure e \<notin> set (finalReader (open_reader inflate (Some c) (map Chunk cs)))"
    using open_reader_plain(2)[OF assms, of inflate "map Chunk cs"] by auto
  from read_body_returns[OF nf] obtain s where
    s: "read_body inflate (Some (map Chunk (c # cs))) = Inr s" by auto
  have cb: "chunks_before (map Chunk cs) = cs" for cs :: "byte list list"
    by (induction cs) simp_all
  have "payload_reads inflate (map Chunk (c # cs)) = map Chunk (c # cs)"
    using assms by (simp add: payload_reads_def)
  then have "fileBuffer s = take SAFE_LIMIT (concat (c # cs))"
    using read_body_buffer(2)[OF s] cb[of "c # cs"] by simp
  with s show ?thesis by blast
qed

text \<open>A body of chunks that overflows the buffer, with no unwrap and a first chunk that does
  not fill the buffer exactly: the reader is cancelled at the first chunk that does not fit.\<close>

lemma read_body_overflow:
  assumes "\<not> unwraps c" "SAFE_LIMIT < length (concat (c # cs))" "length c \<noteq> SAFE_LIMIT"
  shows "\<exists>s pre v post. read_body inflate (Some (map Chunk (c # cs))) = Inr s \<and> cancelled s
            \<and> c # cs = pre @ v # post \<and> length (concat pre) \<le> SAFE_LIMIT
            \<and> SAFE_LIMIT < length (concat pre) + length v \<and> unread s = map Chunk post"
proof -
  define r where "r = open_reader inflate (Some c) (map Chunk cs)"
  note p = open_reader_plain[OF assms(1), of inflate "map Chunk cs", folded r_def]
  have pb: "pending_bytes r = c" using p(1) by (simp add: pending_bytes_def)
  note f = copy_first_chunk_facts[of r]
  have rb: "read_body inflate (Some (map Chunk (c # cs))) = catch_stream_error (copy_body r)"
    by (simp add: read_body_def r_def)
  show ?thesis
  proof (cases "length c > SAFE_LIMIT")
    case True
    have nz: "\<not> isZipCompressed r" using p(3) True by auto
    have "offset (copy_first_chunk r) = SAFE_LIMIT" using f(3) pb True by simp
    then have cb: "copy_body r = (None, copy_first_chunk r)"
      by (simp add: copy_body_def Let_def)
    have "read_body inflate (Some (map Chunk (c # cs))) = Inr (copy_first_chunk r)"
      using rb cb by (simp add: catch_stream_error_def)
    moreover have "cancelled (copy_first_chunk r)" using f(4) pb True nz by simp
    moreover have "unread (copy_first_chunk r) = map Chunk cs" using f(5) p(2) by simp
    moreover have "c # cs = [] @ c # cs" by simp
    moreover have "length (concat ([] :: byte list list)) \<le> SAFE_LIMIT" by simp
    moreover have "SAFE_LIMIT < length (concat ([] :: byte list list)) + length c" using True by simp
    ultimately show ?thesis by blast
  next
    case False
    with assms(3) have short: "length c < SAFE_LIMIT" by simp
    have o: "offset (copy_first_chunk r) = length c" using f(3) pb short by simp
    have over: "offset (copy_first_chunk r) + length (concat cs) > SAFE_LIMIT"
      using assms(2) o by simp
    from copy_loop_overflow[OF f(1) over] obtain pre v post s where
      h: "cs = pre @ v # post" "offset (copy_first_chunk r) + length (concat pre) \<le> SAFE_LIMIT"
         "SAFE_LIMIT < offset (copy_first_chunk r) + length (concat pre) + length v"
         "copy_loop (map Chunk cs) (copy_first_chunk r) = (None, s)"
         "cancelled s" "unread s = map Chunk post"
      by blast
    have cb: "copy_body r = (None, s)"
      using h(4) o short p(2) by (simp add: copy_body_def Let_def)
    have "read_body inflate (Some (map Chunk (c # cs))) = Inr s"
      using rb cb by (simp add: catch_stream_error_def)
    moreover have "c # cs = (c # pre) @ v # post" using h(1) by simp
    moreover have "length (concat (c # pre)) \<le> SAFE_LIMIT" using h(2) o by simp
    moreover have "SAFE_LIMIT < length (concat (c # pre)) + length v" using h(3) o by simp
    ultimately show ?thesis using h(5,6) by blast
  qed
qed

text \<open>
  What holds of the cap on every input. Whatever the reads and the decompressor, the offset never
  exceeds \<open>SAFE_LIMIT\<close>, also when the copy ends with an error; a returned buffer has \<open>offset\<close>
  bytes. For a body of chunks that is not unwrapped and whose cumulative length is at least
  \<open>SAFE_LIMIT\<close>, the call returns exactly the first \<open>SAFE_LIMIT\<close> bytes. When the cumulative length
  exceeds \<open>SAFE_LIMIT\<close> and the first chunk is shorter or longer than \<open>SAFE_LIMIT\<close>, the reader is
  cancelled at the first chunk that does not fit, and no chunk after that one is read.
\<close>

lemma read_body_capped:
  "offset (snd (copy_body r)) \<le> SAFE_LIMIT
   \<and> (read_body inflate responseBody = Inr s \<longrightarrow> length (fileBuffer s) = offset s \<and> offset s \<le> SAFE_LIMIT)
   \<and> (\<not> unwraps c \<and> SAFE_LIMIT \<le> length (concat (c # cs)) \<longrightarrow>
        (\<exists>s'. read_body inflate (Some (map Chunk (c # cs))) = Inr s'
            \<and> fileBuffer s' = take SAFE_LIMIT (concat (c # cs)) \<and> length (fileBuffer s') = SAFE_LIMIT))
   \<and> (\<not> unwraps c \<and> SAFE_LIMIT < length (concat (c # cs)) \<and> length c \<noteq> SAFE_LIMIT \<longrightarrow>
        (\<exists>s' pre v post. read_body inflate (Some (map Chunk (c # cs))) = Inr s' \<and> cancelled s'
            \<and> c # cs = pre @ v # post \<and> length (concat pre) \<le> SAFE_LIMIT
            \<and> SAFE_LIMIT < length (concat pre) + length v \<and> unread s' = map Chunk post))"
proof (intro conjI impI)
  have "copy_inv (snd (copy_body r))"
    by (rule copy_body_buffer(1)[of r "fst (copy_body r)"]) simp
  then show "offset (snd (copy_body r)) \<le> SAFE_LIMIT" by (simp add: copy_inv_def)
next
  assume "read_body inflate responseBody = Inr s"
  then show "length (fileBuffer s) = offset s" "offset s \<le> SAFE_LIMIT"
    using read_body_bound by blast+
next
  assume a: "\<not> unwraps c \<and> SAFE_LIMIT \<le> length (concat (c # cs))"
  from read_body_chunks_only[of c inflate cs] a obtain s' where
    s': "read_body inflate (Some (map Chunk (c # cs))) = Inr s'"
        "fileBuffer s' = take SAFE_LIMIT (concat (c # cs))"
    by blast
  have "SAFE_LIMIT \<le> length (concat (c # cs))" using a by blast
  then have "length (take SAFE_LIMIT (concat (c # cs))) = SAFE_LIMIT"
    by (simp only: length_take min_absorb2)
  then have "length (fileBuffer s') = SAFE_LIMIT" using s'(2) by simp
  with s' show "\<exists>s'. read_body inflate (Some (map Chunk (c # cs))) = Inr s'
            \<and> fileBuffer s' = take SAFE_LIMIT (concat (c # cs)) \<and> length (fileBuffer s') = SAFE_LIMIT"
    by blast
next
  assume "\<not> unwraps c \<and> SAFE_LIMIT < length (concat (c # cs)) \<and> length c \<noteq> SAFE_LIMIT"
  then show "\<exists>s' pre v post. read_body inflate (Some (map Chunk (c # cs))) = Inr s' \<and> cancelled s'
            \<and> c # cs = pre @ v # post \<and> length (concat pre) \<le> SAFE_LIMIT
            \<and> SAFE_LIMIT < length (concat pre) + length v \<and> unread s' = map Chunk post"
    using read_body_overflow[of c cs inflate] by blast
qed

lemma not_unwraps_short: "length c \<le> 30 \<Longrightarrow> \<not> unwraps c"
  by (simp add: unwraps_def has_zip_signature_def)

lemma read_body_capped_example:
  "\<not> unwraps [1, 2] \<and> SAFE_LIMIT < length (concat ([1, 2] # [replicate SAFE_LIMIT (7::byte), [9]]))
   \<and> length [1, 2 :: byte] \<noteq> SAFE_LIMIT
   \<and> (\<exists>s' pre v post. read_body (\<lambda>reads. reads) (Some (map Chunk ([1, 2] # [replicate SAFE_LIMIT (7::byte), [9]]))) = Inr s'
        \<and> length (fileBuffer s') = offset s' \<and> offset s' \<le> SAFE_LIMIT \<and> cancelled s'
        \<and> [1, 2] # [replicate SAFE_LIMIT (7::byte), [9]] = pre @ v # post \<and> length (concat pre) \<le> SAFE_LIMIT
        \<and> SAFE_LIMIT < length (concat pre) + length v \<and> unread s' = map Chunk post)"
proof -
  let ?body = "Some (map Chunk ([1, 2] # [replicate SAFE_LIMIT (7::byte), [9]]))"
  have a: "\<not> unwraps [1, 2]" by (rule not_unwraps_short) simp
  have b: "SAFE_LIMIT < length (concat ([1, 2] # [replicate SAFE_LIMIT (7::byte), [9]]))" by simp
  have c: "length [1, 2 :: byte] \<noteq> SAFE_LIMIT" by (simp add: SAFE_LIMIT_def)
  have h: "\<not> unwraps [1, 2] \<and> SAFE_LIMIT < length (concat ([1, 2] # [replicate SAFE_LIMIT (7::byte), [9]]))
      \<and> length [1, 2 :: byte] \<noteq> SAFE_LIMIT"
    by (intro conjI a b c)
  from read_body_capped[where inflate = "\<lambda>reads. reads" and c = "[1, 2]"
        and cs = "[replicate SAFE_LIMIT (7::byte), [9]]",
      THEN conjunct2, THEN conjunct2, THEN conjunct2, THEN mp, OF h]
  obtain s' pre v post where
    s': "read_body (\<lambda>reads. reads) ?body = Inr s'" "cancelled s'"
        "[1, 2] # [replicate SAFE_LIMIT (7::byte), [9]] = pre @ v # post" "length (concat pre) \<le> SAFE_LIMIT"
        "SAFE_LIMIT < length (concat pre) + length v" "unread s' = map Chunk post"
    by blast
  from read_body_capped[where inflate = "\<lambda>reads. reads" and responseBody = ?body and s = s',
      THEN conjunct2, THEN conjunct1, THEN mp, OF s'(1)]
  have "length (fileBuffer s') = offset s'" "offset s' \<le> SAFE_LIMIT" by blast+
  with s' h show ?thesis by blast
qed

text \<open>
  A body of two chunks whose lengths add up to exactly \<open>SAFE_LIMIT\<close> fills the buffer, the next
  read reports the end of the stream, and no reader is cancelled: nothing was left to discard.
\<close>

lemma read_body_exact_fit:
  "SAFE_LIMIT \<le> length (concat [[0], replicate (SAFE_LIMIT - 1) (0::byte)])
   \<and> \<not> isl (read_body id (Some [Chunk [0], Chunk (replicate (SAFE_LIMIT - 1) 0)]))
   \<and> length (fileBuffer (projr (read_body id (Some [Chunk [0], Chunk (replicate (SAFE_LIMIT - 1) 0)])))) = SAFE_LIMIT
   \<and> \<not> cancelled (projr (read_body id (Some [Chunk [0], Chunk (replicate (SAFE_LIMIT - 1) 0)])))"
proof -
  have a: "\<not> unwraps [0]" by (rule not_unwraps_short) simp
  have l: "length (concat ([0] # [replicate (SAFE_LIMIT - 1) (0::byte)])) = SAFE_LIMIT"
    by (simp add: SAFE_LIMIT_def)
  then have b: "length (concat ([0] # [replicate (SAFE_LIMIT - 1) (0::byte)])) \<le> SAFE_LIMIT" by simp
  from read_body_fits[OF a b, of id] obtain s where
    s: "read_body id (Some (map Chunk ([0] # [replicate (SAFE_LIMIT - 1) 0]))) = Inr s"
       "\<not> cancelled s" "fileBuffer s = concat ([0] # [replicate (SAFE_LIMIT - 1) 0])"
    by blast
  have "length (fileBuffer s) = SAFE_LIMIT" using s(3) l by simp
  moreover have "read_body id (Some [Chunk [0], Chunk (replicate (SAFE_LIMIT - 1) 0)]) = Inr s"
    using s(1) by simp
  ultimately show ?thesis using l s(2) by simp
qed

text \<open>A first chunk of exactly \<open>SAFE_LIMIT\<close> bytes fills the buffer without any cancel, and the
  chunks behind it stay unread.\<close>

lemma first_chunk_exact_not_cancelled:
  assumes "\<not> unwraps c" "length c = SAFE_LIMIT"
  shows "\<exists>s. read_body inflate (Some (Chunk c # rest)) = Inr s \<and> \<not> cancelled s
            \<and> unread s = rest \<and> fileBuffer s = c"
proof -
  define r where "r = open_reader inflate (Some c) rest"
  note p = open_reader_plain[OF assms(1), of inflate rest, folded r_def]
  have pb: "pending_bytes r = c" using p(1) by (simp add: pending_bytes_def)
  note f = copy_first_chunk_facts[of r]
  have "offset (copy_first_chunk r) = SAFE_LIMIT" using f(3) pb assms(2) by simp
  then have cb: "copy_body r = (None, copy_first_chunk r)"
    by (simp add: copy_body_def Let_def)
  have "read_body inflate (Some (Chunk c # rest)) = Inr (copy_first_chunk r)"
    using cb by (simp add: read_body_def r_def catch_stream_error_def)
  moreover have "\<not> cancelled (copy_first_chunk r)" using f(4) pb assms(2) by simp
  moreover have "unread (copy_first_chunk r) = rest" using f(5) p(2) by simp
  moreover have "fileBuffer (copy_first_chunk r) = c" using f(2) pb assms(2) by simp
  ultimately show ?thesis by blast
qed

lemma SAFE_LIMIT_pos: "0 < SAFE_LIMIT" by (simp add: SAFE_LIMIT_def)

lemma not_unwraps_zeros: "\<not> unwraps (replicate n 0)"
  by (cases "n > 30") (simp_all add: unwraps_def has_zip_signature_def ZIP_SIG_def)

text \<open>
  C1. The claim fails on the code when the first read delivers exactly \<open>SAFE_LIMIT\<close> bytes and more
  chunks follow: the first chunk is not longer than the space left, so it takes the branch
  without \<open>reader.cancel()\<close>; the buffer is then full, the loop is skipped, and the call returns
  \<open>SAFE_LIMIT\<close> bytes with the reader never cancelled and the rest of the body never read nor
  discarded. The same bytes split one byte earlier are cancelled by the loop, and a first chunk
  one byte longer is cancelled by the first-chunk branch itself.
\<close>

theorem first_chunk_filling_buffer_not_cancelled:
  "SAFE_LIMIT < length (concat [replicate SAFE_LIMIT 0, [1 :: byte]])
   \<and> \<not> isl (read_body id (Some [Chunk (replicate SAFE_LIMIT 0), Chunk [1]]))
   \<and> length (fileBuffer (projr (read_body id (Some [Chunk (replicate SAFE_LIMIT 0), Chunk [1]])))) = SAFE_LIMIT
   \<and> \<not> cancelled (projr (read_body id (Some [Chunk (replicate SAFE_LIMIT 0), Chunk [1]])))
   \<and> unread (projr (read_body id (Some [Chunk (replicate SAFE_LIMIT 0), Chunk [1]]))) = [Chunk [1]]
   \<and> cancelled (projr (read_body id (Some [Chunk (replicate (SAFE_LIMIT - 1) 0), Chunk [0, 1]])))
   \<and> unread (projr (read_body id (Some [Chunk (replicate (SAFE_LIMIT - 1) 0), Chunk [0, 1]]))) = []
   \<and> cancelled (projr (read_body id (Some [Chunk (replicate (SAFE_LIMIT + 1) 0), Chunk [1]])))"
proof -
  have l: "length (replicate SAFE_LIMIT (0 :: byte)) = SAFE_LIMIT" by simp
  from first_chunk_exact_not_cancelled[OF not_unwraps_zeros l, of id "[Chunk [1]]"]
  obtain s where s: "read_body id (Some [Chunk (replicate SAFE_LIMIT 0), Chunk [1]]) = Inr s"
    "\<not> cancelled s" "unread s = [Chunk [1]]" "fileBuffer s = replicate SAFE_LIMIT 0"
    by blast
  have o2: "SAFE_LIMIT < length (concat (replicate (SAFE_LIMIT - 1) (0 :: byte) # [[0, 1]]))"
    using SAFE_LIMIT_pos by simp
  have n2: "length (replicate (SAFE_LIMIT - 1) (0 :: byte)) \<noteq> SAFE_LIMIT"
    using SAFE_LIMIT_pos by simp
  from read_body_overflow[OF not_unwraps_zeros o2 n2, of id]
  obtain t pre v post where t: "read_body id (Some (map Chunk (replicate (SAFE_LIMIT - 1) 0 # [[0, 1]]))) = Inr t"
    "cancelled t" "replicate (SAFE_LIMIT - 1) 0 # [[0, 1 :: byte]] = pre @ v # post"
    "length (concat pre) \<le> SAFE_LIMIT" "SAFE_LIMIT < length (concat pre) + length v"
    "unread t = map Chunk post"
    by blast
  have "post = []"
  proof (cases pre)
    case Nil
    with t(3) have "v = replicate (SAFE_LIMIT - 1) 0" by simp
    then have "length v < SAFE_LIMIT" using SAFE_LIMIT_pos by simp
    with t(5) Nil show ?thesis by simp
  next
    case (Cons a pre')
    with t(3) have "[[0, 1 :: byte]] = pre' @ v # post" by simp
    then show ?thesis by (cases pre') simp_all
  qed
  then have u2: "unread t = []" using t(6) by simp
  have o3: "SAFE_LIMIT < length (concat (replicate (SAFE_LIMIT + 1) (0 :: byte) # [[1]]))" by simp
  have n3: "length (replicate (SAFE_LIMIT + 1) (0 :: byte)) \<noteq> SAFE_LIMIT" by simp
  from read_body_overflow[OF not_unwraps_zeros o3 n3, of id]
  obtain w where w: "read_body id (Some (map Chunk (replicate (SAFE_LIMIT + 1) 0 # [[1]]))) = Inr w"
    "cancelled w"
    by blast
  have e1: "read_body id (Some [Chunk (replicate (SAFE_LIMIT - 1) 0), Chunk [0, 1]]) = Inr t"
    using t(1) by simp
  have e2: "read_body id (Some [Chunk (replicate (SAFE_LIMIT + 1) 0), Chunk [1]]) = Inr w"
    using w(1) by simp
  have f: "length (fileBuffer s) = SAFE_LIMIT" using s(4) by simp
  show ?thesis
    unfolding s(1) e1 e2 using s(2,3) f t(2) u2 w(2) by simp
qed

subsection \<open>The zip unwrap\<close>

lemma u16_at_eq: "u16_at chunk i = unat (chunk ! i) + 256 * unat (chunk ! (i + 1))"
proof -
  let ?a = "unat (chunk ! i)" and ?b = "unat (chunk ! (i + 1))"
  have a: "?a < 2 ^ 8"
    using unsigned_less[of "chunk ! i", where 'a = nat] by simp
  have "?a + push_bit 8 ?b = ?a OR push_bit 8 ?b"
  proof (rule disjunctive_add_eq_or)
    have "take_bit 8 ?a = ?a" using a by (simp add: take_bit_nat_eq_self)
    then have "?a AND push_bit 8 ?b = take_bit 8 ?a AND push_bit 8 ?b" by simp
    also have "\<dots> = 0"
      by (simp add: bit_eq_iff bit_simps)
    finally show "?a AND push_bit 8 ?b = 0" .
  qed
  then show ?thesis by (simp add: u16_at_def push_bit_eq_mult)
qed

lemma has_zip_signature_iff:
  "has_zip_signature c \<longleftrightarrow> 30 < length c \<and> take 4 c = [0x50, 0x4b, 0x03, 0x04]"
proof (cases "30 < length c")
  case False
  then show ?thesis by (simp add: has_zip_signature_def)
next
  case True
  then obtain a b d e r where c: "c = a # b # d # e # r"
    by (cases c; cases "tl c"; cases "tl (tl c)"; cases "tl (tl (tl c))") auto
  show ?thesis using True unfolding c by (auto simp: has_zip_signature_def ZIP_SIG_def)
qed

lemma dataOffset_eq:
  "dataOffset c = 30 + (unat (c ! 26) + 256 * unat (c ! 27)) + (unat (c ! 28) + 256 * unat (c ! 29))"
  using u16_at_eq[of c 26] u16_at_eq[of c 28] by (simp add: dataOffset_def)

lemma not_unwraps_plain:
  assumes "take 4 c \<noteq> [0x50, 0x4b, 0x03, 0x04] \<or> unat (c ! 8) + 256 * unat (c ! 9) = 0"
  shows "\<not> unwraps c"
proof
  assume u: "unwraps c"
  then have "take 4 c = [0x50, 0x4b, 0x03, 0x04]" "unat (c ! 8) + 256 * unat (c ! 9) = 8"
    using u16_at_eq[of c 8] by (simp_all add: unwraps_def has_zip_signature_iff)
  with assms show False by simp
qed

text \<open>
  C3. When the first chunk begins with the bytes \<open>50 4B 03 04\<close>, is longer than 30 bytes, has the
  value 8 in the two little-endian bytes at offset 8, and is longer than 30 plus the name length
  (little-endian at offset 26) plus the extra field length (little-endian at offset 28), every
  returned buffer holds the output (up to the cap) that the decompressor gives for the first chunk
  past that offset followed by the later reads, and the call returns whenever that output has no
  failure. When the first four bytes differ from the signature or the compression is 0, every
  returned buffer starts with the first chunk itself, followed by the later chunks, and the call
  returns whenever the later reads do not fail.
\<close>

theorem unwrap_deflated_entry:
  "(30 < length c \<and> take 4 c = [0x50, 0x4b, 0x03, 0x04]
      \<and> unat (c ! 8) + 256 * unat (c ! 9) = 8
      \<and> fileNameLength = unat (c ! 26) + 256 * unat (c ! 27)
      \<and> extraFieldLength = unat (c ! 28) + 256 * unat (c ! 29)
      \<and> 30 + fileNameLength + extraFieldLength < length c \<longrightarrow>
      (read_body inflate (Some (Chunk c # rest)) = Inr s \<longrightarrow>
         fileBuffer s = take SAFE_LIMIT (concat (chunks_before
           (inflate (Chunk (drop (30 + fileNameLength + extraFieldLength) c) # rest)))))
      \<and> ((\<forall>e. Failure e \<notin> set (inflate (Chunk (drop (30 + fileNameLength + extraFieldLength) c) # rest))) \<longrightarrow>
         (\<exists>s'. read_body inflate (Some (Chunk c # rest)) = Inr s')))
   \<and> (take 4 c \<noteq> [0x50, 0x4b, 0x03, 0x04] \<or> unat (c ! 8) + 256 * unat (c ! 9) = 0 \<longrightarrow>
      (read_body inflate (Some (Chunk c # rest)) = Inr s \<longrightarrow>
         fileBuffer s = take SAFE_LIMIT (c @ concat (chunks_before rest)))
      \<and> ((\<forall>e. Failure e \<notin> set rest) \<longrightarrow>
         (\<exists>s'. read_body inflate (Some (Chunk c # rest)) = Inr s')))"
proof (intro conjI impI)
  assume u: "30 < length c \<and> take 4 c = [0x50, 0x4b, 0x03, 0x04]
      \<and> unat (c ! 8) + 256 * unat (c ! 9) = 8
      \<and> fileNameLength = unat (c ! 26) + 256 * unat (c ! 27)
      \<and> extraFieldLength = unat (c ! 28) + 256 * unat (c ! 29)
      \<and> 30 + fileNameLength + extraFieldLength < length c"
  then have d: "dataOffset c = 30 + fileNameLength + extraFieldLength"
    by (simp add: dataOffset_eq)
  from u have uw: "unwraps c"
    unfolding unwraps_def d using u16_at_eq[of c 8] by (simp add: has_zip_signature_iff)
  then have pr: "payload_reads inflate (Chunk c # rest)
      = inflate (Chunk (drop (30 + fileNameLength + extraFieldLength) c) # rest)"
    by (simp add: payload_reads_def d)
  {
    assume "read_body inflate (Some (Chunk c # rest)) = Inr s"
    from read_body_buffer(2)[OF this]
    show "fileBuffer s = take SAFE_LIMIT (concat (chunks_before
           (inflate (Chunk (drop (30 + fileNameLength + extraFieldLength) c) # rest))))"
      unfolding pr .
  }
  {
    assume "\<forall>e. Failure e \<notin> set (inflate (Chunk (drop (30 + fileNameLength + extraFieldLength) c) # rest))"
    then have "\<forall>e. Failure e \<notin> set (finalReader (open_reader inflate (Some c) rest))"
      by (simp add: open_reader_unwraps[OF uw] d)
    then show "\<exists>s'. read_body inflate (Some (Chunk c # rest)) = Inr s'"
      by (rule read_body_returns)
  }
next
  assume n: "take 4 c \<noteq> [0x50, 0x4b, 0x03, 0x04] \<or> unat (c ! 8) + 256 * unat (c ! 9) = 0"
  then have nu: "\<not> unwraps c" by (rule not_unwraps_plain)
  then have pr: "payload_reads inflate (Chunk c # rest) = Chunk c # rest"
    by (simp add: payload_reads_def)
  {
    assume "read_body inflate (Some (Chunk c # rest)) = Inr s"
    from read_body_buffer(2)[OF this]
    show "fileBuffer s = take SAFE_LIMIT (c @ concat (chunks_before rest))"
      unfolding pr by simp
  }
  {
    assume "\<forall>e. Failure e \<notin> set rest"
    then have "\<forall>e. Failure e \<notin> set (finalReader (open_reader inflate (Some c) rest))"
      by (simp add: open_reader_plain(2)[OF nu])
    then show "\<exists>s'. read_body inflate (Some (Chunk c # rest)) = Inr s'"
      by (rule read_body_returns)
  }
qed

theorem unwrap_deflated_entry_witness:
  "30 < length deflated_first_chunk \<and> take 4 deflated_first_chunk = [0x50, 0x4b, 0x03, 0x04]
   \<and> unat (deflated_first_chunk ! 8) + 256 * unat (deflated_first_chunk ! 9) = 8
   \<and> (5 :: nat) = unat (deflated_first_chunk ! 26) + 256 * unat (deflated_first_chunk ! 27)
   \<and> (2 :: nat) = unat (deflated_first_chunk ! 28) + 256 * unat (deflated_first_chunk ! 29)
   \<and> 30 + 5 + 2 < length deflated_first_chunk
   \<and> (\<exists>s. read_body inflate_stored (Some (Chunk deflated_first_chunk # [Chunk [0x0B, 0x0C]])) = Inr s
          \<and> fileBuffer s = [0x0A, 0x0B, 0x0C])
   \<and> unat (stored_first_chunk ! 8) + 256 * unat (stored_first_chunk ! 9) = 0
   \<and> (\<exists>s. read_body inflate_stored (Some (Chunk stored_first_chunk # [Chunk [0xDD]])) = Inr s
          \<and> fileBuffer s = stored_first_chunk @ [0xDD])"
proof -
  have d: "30 < length deflated_first_chunk \<and> take 4 deflated_first_chunk = [0x50, 0x4b, 0x03, 0x04]
      \<and> unat (deflated_first_chunk ! 8) + 256 * unat (deflated_first_chunk ! 9) = 8
      \<and> (5 :: nat) = unat (deflated_first_chunk ! 26) + 256 * unat (deflated_first_chunk ! 27)
      \<and> (2 :: nat) = unat (deflated_first_chunk ! 28) + 256 * unat (deflated_first_chunk ! 29)
      \<and> 30 + 5 + 2 < length deflated_first_chunk"
    by (simp add: deflated_first_chunk_def)
  have out: "inflate_stored (Chunk (drop (30 + 5 + 2) deflated_first_chunk) # [Chunk [0x0B, 0x0C]]) = [Chunk [0x0A, 0x0B, 0x0C]]"
    by (simp add: inflate_stored_def deflated_first_chunk_def)
  have nf1: "\<forall>e. Failure e \<notin> set (inflate_stored (Chunk (drop (30 + 5 + 2) deflated_first_chunk) # [Chunk [0x0B, 0x0C]]))"
    unfolding out by simp
  from unwrap_deflated_entry[of deflated_first_chunk 5 2 inflate_stored "[Chunk [0x0B, 0x0C]]" _,
      THEN conjunct1, THEN mp, OF d, THEN conjunct2, THEN mp, OF nf1]
  obtain s where s: "read_body inflate_stored (Some (Chunk deflated_first_chunk # [Chunk [0x0B, 0x0C]])) = Inr s"
    by blast
  from unwrap_deflated_entry[of deflated_first_chunk 5 2 inflate_stored "[Chunk [0x0B, 0x0C]]" s,
      THEN conjunct1, THEN mp, OF d, THEN conjunct1, THEN mp, OF s]
  have b1: "fileBuffer s = [0x0A, 0x0B, 0x0C]" unfolding out by (simp add: SAFE_LIMIT_def)
  have z: "unat (stored_first_chunk ! 8) + 256 * unat (stored_first_chunk ! 9) = 0"
    by (simp add: stored_first_chunk_def)
  then have st: "take 4 stored_first_chunk \<noteq> [0x50, 0x4b, 0x03, 0x04]
      \<or> unat (stored_first_chunk ! 8) + 256 * unat (stored_first_chunk ! 9) = 0"
    by (rule disjI2)
  have nf: "\<forall>e. Failure e \<notin> set [Chunk [0xDD]]" by simp
  from unwrap_deflated_entry[of stored_first_chunk _ _ inflate_stored "[Chunk [0xDD]]" _,
      THEN conjunct2, THEN mp, OF st, THEN conjunct2, THEN mp, OF nf]
  obtain s2 where s2: "read_body inflate_stored (Some (Chunk stored_first_chunk # [Chunk [0xDD]])) = Inr s2"
    by blast
  from unwrap_deflated_entry[of stored_first_chunk _ _ inflate_stored "[Chunk [0xDD]]" s2,
      THEN conjunct2, THEN mp, OF st, THEN conjunct1, THEN mp, OF s2]
  have b2: "fileBuffer s2 = stored_first_chunk @ [0xDD]"
    by (simp add: SAFE_LIMIT_def stored_first_chunk_def)
  from d s b1 z s2 b2 show ?thesis by blast
qed

subsection \<open>The \<open>catch\<close> clause\<close>

text \<open>
  C4. When a read of the copy loop fails (the chunks before it fit the buffer, so the failure is
  reached), the call returns normally if and only if at least one byte was written and the
  message contains \<open>incomplete data\<close> or \<open>unexpected end of file\<close>; the buffer then holds
  the bytes written so far. In every other case the call throws an error whose message is
  \<open>Stream reading failed: \<close> followed by the original message.
\<close>

theorem stream_failure_swallowed_iff:
  assumes "finalReader r = map Chunk cs @ Failure err # later"
    and "length (pending_bytes r) < SAFE_LIMIT"
    and "length (pending_bytes r) + length (concat cs) \<le> SAFE_LIMIT"
  shows "((\<exists>s. catch_stream_error (copy_body r) = Inr s) \<longleftrightarrow>
            (0 < length (pending_bytes r) + length (concat cs) \<and> expected_end (error_message err)))
       \<and> (0 < length (pending_bytes r) + length (concat cs) \<and> expected_end (error_message err) \<longrightarrow>
            (\<exists>s. catch_stream_error (copy_body r) = Inr s \<and> fileBuffer s = pending_bytes r @ concat cs
                 \<and> offset s = length (pending_bytes r) + length (concat cs)))
       \<and> (\<not> (0 < length (pending_bytes r) + length (concat cs) \<and> expected_end (error_message err)) \<longrightarrow>
            catch_stream_error (copy_body r) = Inl (Error (''Stream reading failed: '' @ error_message err)))"
proof -
  note f = copy_first_chunk_facts[of r]
  have o: "offset (copy_first_chunk r) = length (pending_bytes r)" using f(3) assms(2) by simp
  have fb: "fileBuffer (copy_first_chunk r) = pending_bytes r" using f(2) assms(2) by simp
  have fit: "offset (copy_first_chunk r) + length (concat cs) \<le> SAFE_LIMIT" using o assms(3) by simp
  from copy_loop_fitting[OF f(1) fit, of "Failure err # later"] obtain t where
    t: "copy_loop (map Chunk cs @ Failure err # later) (copy_first_chunk r) = copy_loop (Failure err # later) t"
       "fileBuffer t = fileBuffer (copy_first_chunk r) @ concat cs"
       "offset t = offset (copy_first_chunk r) + length (concat cs)"
    by blast
  define s where "s = t\<lparr>unread := later\<rparr>"
  have cb: "copy_body r = (Some err, s)"
    using t(1) o assms(1,2) by (simp add: copy_body_def Let_def s_def)
  have os: "offset s = length (pending_bytes r) + length (concat cs)"
    using t(3) o by (simp add: s_def)
  have fs: "fileBuffer s = pending_bytes r @ concat cs"
    using t(2) fb by (simp add: s_def fileBuffer_def)
  show ?thesis
  proof (cases "0 < length (pending_bytes r) + length (concat cs) \<and> expected_end (error_message err)")
    case True
    then have "catch_stream_error (copy_body r) = Inr s"
      using cb os by (simp add: catch_stream_error_def Let_def)
    then show ?thesis using True os fs by simp
  next
    case False
    then have "catch_stream_error (copy_body r) = Inl (Error (''Stream reading failed: '' @ error_message err))"
      using cb os by (auto simp: catch_stream_error_def Let_def)
    then show ?thesis using False by simp
  qed
qed

theorem stream_failure_swallowed_iff_witness:
  "catch_stream_error (copy_body \<lparr>firstChunk = None,
       finalReader = map Chunk [[1, 2, 3]] @ Failure (TypeError ''unexpected end of file'') # [],
       isZipCompressed = True\<rparr>) \<noteq> Inl (Error ''Stream reading failed: unexpected end of file'')
   \<and> catch_stream_error (copy_body \<lparr>firstChunk = None,
       finalReader = map Chunk [] @ Failure (TypeError ''unexpected end of file'') # [],
       isZipCompressed = True\<rparr>) = Inl (Error ''Stream reading failed: unexpected end of file'')
   \<and> catch_stream_error (copy_body \<lparr>firstChunk = Some [7],
       finalReader = map Chunk [[1, 2, 3]] @ Failure (Error ''connection reset'') # [],
       isZipCompressed = False\<rparr>) = Inl (Error ''Stream reading failed: connection reset'')"
proof -
  let ?r1 = "\<lparr>firstChunk = None,
       finalReader = map Chunk [[1, 2, 3]] @ Failure (TypeError ''unexpected end of file'') # [],
       isZipCompressed = True\<rparr>"
  let ?r2 = "\<lparr>firstChunk = None,
       finalReader = map Chunk [] @ Failure (TypeError ''unexpected end of file'') # [],
       isZipCompressed = True\<rparr>"
  let ?r3 = "\<lparr>firstChunk = Some [7],
       finalReader = map Chunk [[1, 2, 3]] @ Failure (Error ''connection reset'') # [],
       isZipCompressed = False\<rparr>"
  have e: "expected_end (error_message (TypeError ''unexpected end of file''))"
    by (simp add: expected_end_def)
  have ne: "\<not> expected_end (error_message (Error ''connection reset''))"
    by (simp add: expected_end_def)
  have 1: "\<exists>s. catch_stream_error (copy_body ?r1) = Inr s"
    using stream_failure_swallowed_iff[of ?r1 "[[1, 2, 3]]" "TypeError ''unexpected end of file''" "[]"] e
    by (simp add: pending_bytes_def SAFE_LIMIT_def)
  have 2: "catch_stream_error (copy_body ?r2) = Inl (Error ''Stream reading failed: unexpected end of file'')"
    using stream_failure_swallowed_iff[of ?r2 "[]" "TypeError ''unexpected end of file''" "[]"]
    by (simp add: pending_bytes_def SAFE_LIMIT_def)
  have 3: "catch_stream_error (copy_body ?r3) = Inl (Error ''Stream reading failed: connection reset'')"
    using stream_failure_swallowed_iff[of ?r3 "[[1, 2, 3]]" "Error ''connection reset''" "[]"] ne
    by (simp add: pending_bytes_def SAFE_LIMIT_def)
  from 1 2 3 show ?thesis by auto
qed

text \<open>The first read is made before the \<open>try\<close>: its failure is not wrapped.\<close>

lemma first_read_failure_unwrapped:
  "read_body inflate (Some (Failure err # rest)) = Inl err"
  by (simp add: read_body_def)

subsection \<open>The whole call\<close>

lemma fetchMediaChunk_Inr:
  assumes "fetchMediaChunk P initialUrl chunkSize = Inr r"
  shows "\<exists>verb headRes calls res s.
      probe P (url (resolveGoogleDriveUrl initialUrl)) = Inr (verb, headRes, calls)
    \<and> check_probe (isGoogleDrive (resolveGoogleDriveUrl initialUrl)) headRes = Inr ()
    \<and> fetch P calls \<lparr>req_url = url (resolveGoogleDriveUrl initialUrl), req_method = ''GET'',
          req_headers = getEmulationHeaders
             (Some (''bytes=0-'' @ show_jsnum (fetch_end chunkSize (determine_file_size headRes))))\<rparr> = Inr res
    \<and> read_body (inflate_raw P) (body res) = Inr s
    \<and> buffer r = fileBuffer s
    \<and> filename r = determine_filename P (url (resolveGoogleDriveUrl initialUrl)) headRes
    \<and> fileSize r = determine_file_size headRes
    \<and> probeMethod (diagnostics r) = verb"
  using assms unfolding fetchMediaChunk_def Let_def
  by (simp split: sum.splits prod.splits) force

text \<open>Every returned buffer is within the cap.\<close>

lemma fetchMediaChunk_buffer_bound:
  assumes "fetchMediaChunk P initialUrl chunkSize = Inr r"
  shows "length (buffer r) \<le> SAFE_LIMIT"
proof -
  from fetchMediaChunk_Inr[OF assms] obtain res :: response and s where
    h: "read_body (inflate_raw P) (body res) = Inr s" "buffer r = fileBuffer s"
    by blast
  show ?thesis using read_body_bound[OF h(1)] h(2) by simp
qed

lemma read_body_delivered:
  assumes "read_body inflate (Some reads) = Inr s" "\<not> unwrapped reads"
  shows "length (fileBuffer s) \<le> length (concat (chunks_before reads))"
proof -
  have "payload_reads inflate reads = reads"
    using assms(2) by (cases reads rule: chunks_before.cases) (simp_all add: payload_reads_def unwrapped_def)
  then have "fileBuffer s = take SAFE_LIMIT (concat (chunks_before reads))"
    using read_body_buffer(2)[OF assms(1)] by simp
  then show ?thesis by simp
qed

lemma requested_range_length_known:
  "requested_range_length chunkSize (Some (Num totalSize)) = Some (min chunkSize totalSize)"
  by (simp add: requested_range_length_def fetch_end_def min_def)

text \<open>
  C2 (amended). When the call returns with a known total size, the range asked for has length
  \<open>min chunkSize totalSize\<close>; the number of bytes written is at most \<open>SAFE_LIMIT\<close>, and it is at
  most the length of that range provided the origin sends no more body bytes than the range
  asks for and the body is not unwrapped as a deflated zip entry.
\<close>

theorem fetchMediaChunk_within_range:
  assumes "fetchMediaChunk P initialUrl chunkSize = Inr r"
    and "fileSize r = Some (Num totalSize)"
    and "\<And>n req res reads. fetch P n req = Inr res \<Longrightarrow> body res = Some reads \<Longrightarrow>
           \<not> unwrapped reads \<and> int (length (concat (chunks_before reads))) \<le> min chunkSize totalSize"
  shows "requested_range_length chunkSize (fileSize r) = Some (min chunkSize totalSize)
       \<and> int (length (buffer r)) \<le> min chunkSize totalSize
       \<and> length (buffer r) \<le> SAFE_LIMIT"
proof -
  from fetchMediaChunk_Inr[OF assms(1)] obtain calls req res s where
    h: "fetch P calls req = Inr res" "read_body (inflate_raw P) (body res) = Inr s" "buffer r = fileBuffer s"
    by blast
  from h(2) obtain reads where b: "body res = Some reads"
    by (cases "body res") (simp_all add: read_body_def)
  from assms(3)[OF h(1) b] have nu: "\<not> unwrapped reads"
    and le: "int (length (concat (chunks_before reads))) \<le> min chunkSize totalSize" by blast+
  have "length (fileBuffer s) \<le> length (concat (chunks_before reads))"
    using read_body_delivered[OF _ nu] h(2) b by simp
  then have 1: "int (length (buffer r)) \<le> min chunkSize totalSize" using le h(3) by simp
  have 2: "length (buffer r) \<le> SAFE_LIMIT" using read_body_bound[OF h(2)] h(3) by simp
  show ?thesis using 1 2 assms(2) requested_range_length_known by simp
qed

lemma sample_origin_fetch:
  "fetchMediaChunk (sample_origin ''2'' payload) ''https://example.com/a.mkv'' 10485760 =
     Inr \<lparr>buffer = fileBuffer (snd (copy_body \<lparr>firstChunk = Some payload, finalReader = [], isZipCompressed = False\<rparr>)),
          filename = ''https://example.com/a.mkv'', fileSize = Some (Num 2),
          diagnostics = \<lparr>diag_isGoogleDrive = False, resolvedFilename = ''https://example.com/a.mkv'',
                         responseStatus = 206, probeMethod = ''HEAD''\<rparr>\<rparr>"
  if "length payload \<le> 30"
  using that
  by (simp add: fetchMediaChunk_def resolveGoogleDriveUrl_def match_here_def GOOGLE_DRIVE_LEAD_def
  validateUrl_def validateHost_def startsWith_def LOCALHOST_IPS_def META_DATA_HOSTS_def
  probe_def check_probe_def response_ok_def determine_file_size_def determine_filename_def
  parseInt_def is_js_whitespace_def is_digit_in_def digit_value_def digits_value_def
  read_body_def open_reader_def has_zip_signature_def sample_origin_def Let_def
  copy_body_def copy_first_chunk_def SAFE_LIMIT_def catch_stream_error_def)

text \<open>
  C2 as stated fails: the origin declares 2 bytes, so the range asked for is \<open>bytes=0-1\<close>, but it
  sends a chunk of 3 bytes and all 3 are written.
\<close>

theorem fetchMediaChunk_overlong_body_counterexample:
  "fetchMediaChunk (sample_origin ''2'' [1, 2, 3]) ''https://example.com/a.mkv'' 10485760 =
     Inr \<lparr>buffer = [1, 2, 3],
          filename = ''https://example.com/a.mkv'', fileSize = Some (Num 2),
          diagnostics = \<lparr>diag_isGoogleDrive = False, resolvedFilename = ''https://example.com/a.mkv'',
                         responseStatus = 206, probeMethod = ''HEAD''\<rparr>\<rparr>
   \<and> requested_range_length 10485760 (Some (Num 2)) = Some 2
   \<and> (2::int) < 10485760
   \<and> int (length [1, 2, 3 :: byte]) > 2"
  by (simp add: sample_origin_fetch requested_range_length_def fetch_end_def
      copy_body_def copy_first_chunk_def SAFE_LIMIT_def fileBuffer_def buffer_set_def Let_def)

theorem fetchMediaChunk_within_range_witness:
  "\<exists>r. fetchMediaChunk (sample_origin ''2'' [1, 2]) ''https://example.com/a.mkv'' 10485760 = Inr r
      \<and> fileSize r = Some (Num 2)
      \<and> requested_range_length 10485760 (fileSize r) = Some 2
      \<and> int (length (buffer r)) \<le> 2"
proof -
  obtain r where r: "fetchMediaChunk (sample_origin ''2'' [1, 2]) ''https://example.com/a.mkv'' 10485760 = Inr r"
    and fs: "fileSize r = Some (Num 2)"
    by (simp add: sample_origin_fetch)
  have h: "\<not> unwrapped reads \<and> int (length (concat (chunks_before reads))) \<le> min 10485760 2"
    if "fetch (sample_origin ''2'' [1, 2]) n req = Inr res" "body res = Some reads" for n req res reads
  proof -
    from that have "reads = [Chunk [1, 2]]"
      by (auto simp: sample_origin_def split: if_splits)
    then show ?thesis by (simp add: unwrapped_def unwraps_def has_zip_signature_def)
  qed
  from fetchMediaChunk_within_range[OF r fs h]
  have "requested_range_length 10485760 (fileSize r) = Some 2 \<and> int (length (buffer r)) \<le> 2"
    by simp
  with r fs show ?thesis by blast
qed


subsection \<open>The probe\<close>

lemma probe_cases:
  assumes "fetch P 0 \<lparr>req_url = t, req_method = ''HEAD'', req_headers = EMULATION_HEADERS_INIT\<rparr> = Inr headRes"
  shows "probe P t =
           (if status headRes = 405
            then (case fetch P 1 \<lparr>req_url = t, req_method = ''GET'',
                                   req_headers = EMULATION_HEADERS_INIT @ [(''Range'', ''bytes=0-0'')]\<rparr> of
                    Inl e \<Rightarrow> Inl e
                  | Inr getRes \<Rightarrow> Inr (''GET'', getRes, 2))
            else Inr (''HEAD'', headRes, 1))"
  using assms by (simp add: probe_def getEmulationHeaders_def)

lemma determine_filename_fetch_update [simp]:
  "determine_filename (P\<lparr>fetch := f\<rparr>) t res = determine_filename P t res"
proof -
  have "decodeURIComponent (P\<lparr>fetch := f\<rparr>) = decodeURIComponent P" by simp
  then show ?thesis unfolding determine_filename_def by (simp only:)
qed

text \<open>
  C8. When the \<open>HEAD\<close> response has status 405, a second request is made with the verb \<open>GET\<close> and
  the header \<open>Range: bytes=0-0\<close>; a returned result records \<open>probeMethod = GET\<close> and takes the
  content-type check, the size and the file name from the \<open>GET\<close> response, and the outcome does
  not depend on anything else in the \<open>HEAD\<close> response. For every other \<open>HEAD\<close> status a returned
  result records \<open>probeMethod = HEAD\<close> and is built from the \<open>HEAD\<close> response.
\<close>

theorem probe_falls_back_to_get:
  assumes "fetch P 0 \<lparr>req_url = url (resolveGoogleDriveUrl initialUrl), req_method = ''HEAD'',
                      req_headers = EMULATION_HEADERS_INIT\<rparr> = Inr headRes"
  shows "(fetchMediaChunk P initialUrl chunkSize = Inr r \<and> status headRes = 405 \<longrightarrow>
            probeMethod (diagnostics r) = ''GET''
            \<and> (\<exists>getRes. fetch P 1 \<lparr>req_url = url (resolveGoogleDriveUrl initialUrl), req_method = ''GET'',
                                    req_headers = EMULATION_HEADERS_INIT @ [(''Range'', ''bytes=0-0'')]\<rparr> = Inr getRes
                 \<and> check_probe (isGoogleDrive (resolveGoogleDriveUrl initialUrl)) getRes = Inr ()
                 \<and> fileSize r = determine_file_size getRes
                 \<and> filename r = determine_filename P (url (resolveGoogleDriveUrl initialUrl)) getRes))
       \<and> (fetchMediaChunk P initialUrl chunkSize = Inr r \<and> status headRes \<noteq> 405 \<longrightarrow>
            probeMethod (diagnostics r) = ''HEAD''
            \<and> check_probe (isGoogleDrive (resolveGoogleDriveUrl initialUrl)) headRes = Inr ()
            \<and> fileSize r = determine_file_size headRes
            \<and> filename r = determine_filename P (url (resolveGoogleDriveUrl initialUrl)) headRes)
       \<and> (status headRes = 405 \<and> status other = 405 \<longrightarrow>
            fetchMediaChunk (P\<lparr>fetch := (fetch P)(0 := \<lambda>req. Inr other)\<rparr>) initialUrl chunkSize
              = fetchMediaChunk P initialUrl chunkSize)"
proof (intro conjI impI)
  let ?t = "url (resolveGoogleDriveUrl initialUrl)"
  let ?g = "isGoogleDrive (resolveGoogleDriveUrl initialUrl)"
  note pc = probe_cases[OF assms]
  {
    assume a: "fetchMediaChunk P initialUrl chunkSize = Inr r \<and> status headRes = 405"
    from fetchMediaChunk_Inr[of P initialUrl chunkSize r] a obtain verb res calls where
      h: "probe P ?t = Inr (verb, res, calls)" "check_probe ?g res = Inr ()"
         "filename r = determine_filename P ?t res" "fileSize r = determine_file_size res"
         "probeMethod (diagnostics r) = verb"
      by blast
    from h(1) pc a obtain getRes where
      g: "fetch P 1 \<lparr>req_url = ?t, req_method = ''GET'',
                      req_headers = EMULATION_HEADERS_INIT @ [(''Range'', ''bytes=0-0'')]\<rparr> = Inr getRes"
         "verb = ''GET''" "res = getRes"
      by (auto split: sum.splits)
    show "probeMethod (diagnostics r) = ''GET''" using h(5) g(2) by simp
    show "\<exists>getRes. fetch P 1 \<lparr>req_url = ?t, req_method = ''GET'',
                                    req_headers = EMULATION_HEADERS_INIT @ [(''Range'', ''bytes=0-0'')]\<rparr> = Inr getRes
                 \<and> check_probe ?g getRes = Inr ()
                 \<and> fileSize r = determine_file_size getRes
                 \<and> filename r = determine_filename P ?t getRes"
      using g(1,3) h(2,3,4) by blast
  }
  {
    assume a: "fetchMediaChunk P initialUrl chunkSize = Inr r \<and> status headRes \<noteq> 405"
    from fetchMediaChunk_Inr[of P initialUrl chunkSize r] a obtain verb res calls where
      h: "probe P ?t = Inr (verb, res, calls)" "check_probe ?g res = Inr ()"
         "filename r = determine_filename P ?t res" "fileSize r = determine_file_size res"
         "probeMethod (diagnostics r) = verb"
      by blast
    from h(1) pc a have g: "verb = ''HEAD''" "res = headRes" by simp_all
    show "probeMethod (diagnostics r) = ''HEAD''" using h(5) g(1) by simp
    show "check_probe ?g headRes = Inr ()" using h(2) g(2) by simp
    show "fileSize r = determine_file_size headRes" using h(4) g(2) by simp
    show "filename r = determine_filename P ?t headRes" using h(3) g(2) by simp
  }
  {
    assume a: "status headRes = 405 \<and> status other = 405"
    let ?P' = "P\<lparr>fetch := (fetch P)(0 := \<lambda>req. Inr other)\<rparr>"
    have "fetch ?P' 0 \<lparr>req_url = ?t, req_method = ''HEAD'', req_headers = EMULATION_HEADERS_INIT\<rparr> = Inr other"
      by simp
    from probe_cases[OF this] a pc have p: "probe ?P' ?t = probe P ?t" by simp
    have calls: "calls = 2" if "probe P ?t = Inr (verb, res, calls)" for verb res calls
      using that pc a by (auto split: sum.splits)
    show "fetchMediaChunk ?P' initialUrl chunkSize = fetchMediaChunk P initialUrl chunkSize"
      unfolding fetchMediaChunk_def Let_def p
      by (auto split: sum.splits prod.splits dest: calls)
  }
qed

lemma head_rejecting_origin_fetch:
  "fetchMediaChunk head_rejecting_origin ''https://example.com/v'' 10485760 =
     Inr \<lparr>buffer = [1, 2, 3, 4, 5],
          filename = ''clip.mkv'', fileSize = Some (Num 5),
          diagnostics = \<lparr>diag_isGoogleDrive = False, resolvedFilename = ''clip.mkv'',
                         responseStatus = 206, probeMethod = ''GET''\<rparr>\<rparr>"
  by (simp add: fetchMediaChunk_def resolveGoogleDriveUrl_def match_here_def GOOGLE_DRIVE_LEAD_def
  validateUrl_def validateHost_def startsWith_def LOCALHOST_IPS_def META_DATA_HOSTS_def
  probe_def check_probe_def response_ok_def determine_file_size_def determine_filename_def
  parseInt_def is_js_whitespace_def is_digit_in_def digit_value_def digits_value_def is_dec_digit_def
  star_here_def normal_here_def prefix_ci_def to_upper_ascii_def
  read_body_def open_reader_def has_zip_signature_def head_rejecting_origin_def Let_def
  copy_body_def copy_first_chunk_def SAFE_LIMIT_def catch_stream_error_def fileBuffer_def buffer_set_def)

theorem probe_falls_back_to_get_witness:
  "status \<lparr>status = 405, headers = [''content-type'' \<mapsto> ''text/html''], body = None\<rparr> = 405
   \<and> probeMethod (diagnostics (projr (fetchMediaChunk head_rejecting_origin ''https://example.com/v'' 10485760))) = ''GET''
   \<and> fileSize (projr (fetchMediaChunk head_rejecting_origin ''https://example.com/v'' 10485760)) = Some (Num 5)
   \<and> filename (projr (fetchMediaChunk head_rejecting_origin ''https://example.com/v'' 10485760)) = ''clip.mkv''"
proof -
  let ?h = "\<lparr>status = 405, headers = [''content-type'' \<mapsto> ''text/html''], body = None\<rparr>"
  let ?r = "projr (fetchMediaChunk head_rejecting_origin ''https://example.com/v'' 10485760)"
  have u: "url (resolveGoogleDriveUrl ''https://example.com/v'') = ''https://example.com/v''"
    by (simp add: resolveGoogleDriveUrl_def match_here_def GOOGLE_DRIVE_LEAD_def)
  have f0: "fetch head_rejecting_origin 0 \<lparr>req_url = url (resolveGoogleDriveUrl ''https://example.com/v''),
        req_method = ''HEAD'', req_headers = EMULATION_HEADERS_INIT\<rparr> = Inr ?h"
    by (simp add: head_rejecting_origin_def)
  have ok: "fetchMediaChunk head_rejecting_origin ''https://example.com/v'' 10485760 = Inr ?r"
    by (simp add: head_rejecting_origin_fetch)
  have st: "status ?h = 405" by simp
  from probe_falls_back_to_get[OF f0, of 10485760 ?r, THEN conjunct1] ok st
  obtain getRes where
    g: "probeMethod (diagnostics ?r) = ''GET''"
       "fetch head_rejecting_origin 1 \<lparr>req_url = url (resolveGoogleDriveUrl ''https://example.com/v''), req_method = ''GET'',
             req_headers = EMULATION_HEADERS_INIT @ [(''Range'', ''bytes=0-0'')]\<rparr> = Inr getRes"
       "fileSize ?r = determine_file_size getRes"
       "filename ?r = determine_filename head_rejecting_origin (url (resolveGoogleDriveUrl ''https://example.com/v'')) getRes"
    by blast
  from g(2) have gr: "getRes = \<lparr>status = 206,
                    headers = [''content-range'' \<mapsto> ''bytes 0-0/5'',
                               ''content-disposition'' \<mapsto> ''attachment; filename=clip.mkv''],
                    body = Some [Chunk [1]]\<rparr>"
    by (simp add: head_rejecting_origin_def)
  have "fileSize ?r = Some (Num 5)"
    unfolding g(3) gr
    by (simp add: determine_file_size_def parseInt_def is_js_whitespace_def is_digit_in_def digit_value_def
        digits_value_def is_dec_digit_def)
  moreover have "filename ?r = ''clip.mkv''"
    unfolding g(4) gr
    by (simp add: determine_filename_def star_here_def normal_here_def prefix_ci_def to_upper_ascii_def)
  ultimately show ?thesis using g(1) st by blast
qed

section \<open>Properties of the archive peek\<close>

subsection \<open>Decoding\<close>

text \<open>ASCII bytes decode to themselves.\<close>

lemma utf8_decode_ascii:
  "\<forall>b\<in>set bs. unat b \<le> 0x7F \<Longrightarrow> utf8_decode utf8_initial bs = map unat bs"
proof (induction bs)
  case Nil
  then show ?case by (simp add: utf8_initial_def)
next
  case (Cons b bs)
  then have b: "unat b \<le> 0x7F" by simp
  have n: "bytes_needed utf8_initial = 0" by (simp add: utf8_initial_def)
  have l: "utf8_lead (unat b) = ([unat b], utf8_initial)" using b by (simp add: utf8_lead_def)
  show ?case using Cons n l by (simp add: Let_def)
qed

lemma decode_text_ascii:
  assumes "\<forall>b\<in>set bs. unat b \<le> 0x7F"
  shows "decode_text bs = map unat bs"
proof (cases bs)
  case Nil
  then show ?thesis by (simp add: decode_text_def utf8_initial_def)
next
  case (Cons b bs')
  then have "unat b \<noteq> 0xFEFF" using assms by auto
  then show ?thesis using utf8_decode_ascii[OF assms] Cons by (simp add: decode_text_def)
qed

lemma unat_byte_of_nat: "unat (of_nat n :: byte) = n mod 256"
  by (simp add: unat_of_nat)

lemma decode_bytes_of:
  assumes "\<forall>c\<in>set s. of_char c \<le> (0x7F :: nat)"
  shows "decode_text (bytes_of s) = code_points s"
proof -
  have u: "unat (of_nat (of_char c) :: byte) = of_char c" if "c \<in> set s" for c
    using assms that by (simp add: unat_byte_of_nat)
  then have "\<forall>b\<in>set (bytes_of s). unat b \<le> 0x7F"
    using assms by (auto simp: bytes_of_def)
  from decode_text_ascii[OF this] show ?thesis
    using u by (simp add: bytes_of_def code_points_def)
qed

text \<open>The masks and the shift of the decoder as arithmetic.\<close>

lemma and_low_bits:
  "(b :: nat) AND 0x3F = b mod 64" "(b :: nat) AND 0x1F = b mod 32" "(b :: nat) AND 0xF = b mod 16"
  "(b :: nat) AND 0x7 = b mod 8"
proof -
  have m: "(0x3F :: nat) = mask 6" "(0x1F :: nat) = mask 5" "(0xF :: nat) = mask 4" "(0x7 :: nat) = mask 3"
    by (simp_all add: mask_eq_exp_minus_1)
  show "(b :: nat) AND 0x3F = b mod 64" "(b :: nat) AND 0x1F = b mod 32" "(b :: nat) AND 0xF = b mod 16"
    "(b :: nat) AND 0x7 = b mod 8"
    unfolding m by (simp_all add: take_bit_eq_mask[symmetric] take_bit_eq_mod)
qed

lemma continuation_value:
  "push_bit 6 (a :: nat) OR (b AND 0x3F) = a * 64 + b mod 64"
proof -
  have "push_bit 6 a AND take_bit 6 b = 0"
    by (simp add: bit_eq_iff bit_simps)
  then have "push_bit 6 a + take_bit 6 b = push_bit 6 a OR take_bit 6 b"
    by (rule disjunctive_add_eq_or)
  then show ?thesis
    by (simp add: and_low_bits(1) take_bit_eq_mod push_bit_eq_mult)
qed

text \<open>What the decoder does outside ASCII: a leading byte-order mark is dropped, a later one is
  kept, a well-formed sequence gives its code point, and every byte that cannot start or
  continue a sequence gives U+FFFD.\<close>

lemma decode_text_examples:
  "decode_text [0xEF, 0xBB, 0xBF] = []"
  "decode_text [0xEF, 0xBB, 0xBF, 0x61] = [0x61]"
  "decode_text [0x61, 0xEF, 0xBB, 0xBF] = [0x61, 0xFEFF]"
  "decode_text [0xC3, 0xA9] = [0xE9]"
  "decode_text [0xF0, 0x9F, 0x98, 0x80] = [0x1F600]"
  "decode_text [0xFF, 0x61] = [0xFFFD, 0x61]"
  "decode_text [0xE2, 0x82] = [0xFFFD]"
  "decode_text [0xED, 0xA0, 0x80] = [0xFFFD, 0xFFFD, 0xFFFD]"
  by (simp_all add: decode_text_def utf8_initial_def utf8_lead_def Let_def continuation_value and_low_bits)

text \<open>On a Latin-1 string \<open>parseInt_text\<close> is \<open>parseInt\<close>.\<close>

lemma of_char_eq_iff_char_of:
  "n < 256 \<Longrightarrow> (of_char c :: nat) = n \<longleftrightarrow> c = char_of n"
  by (auto simp: char_of_eq_iff take_bit_eq_mod)

lemma latin1_codes:
  "char_of (0x09 :: nat) = CHR 0x09" "char_of (0x0A :: nat) = CHR 0x0A" "char_of (0x0B :: nat) = CHR 0x0B"
  "char_of (0x0C :: nat) = CHR 0x0C" "char_of (0x0D :: nat) = CHR 0x0D" "char_of (0x20 :: nat) = CHR '' ''"
  "char_of (0xA0 :: nat) = CHR 0xA0" "char_of (0x2D :: nat) = CHR ''-''" "char_of (0x2B :: nat) = CHR ''+''"
  by (simp_all add: char_of_eq_iff take_bit_eq_mod)

lemma is_whitespace_code_of_char:
  "is_whitespace_code (of_char c) = is_js_whitespace c"
proof -
  have lt: "(of_char c :: nat) < 256" by simp
  have big: "(of_char c :: nat) \<noteq> n" if "256 \<le> n" for n using lt that by linarith
  have nr: "\<not> 8192 \<le> (of_char c :: nat)" using lt by linarith
  have "is_whitespace_code (of_char c) \<longleftrightarrow>
      (of_char c :: nat) = 0x09 \<or> (of_char c :: nat) = 0x0A \<or> (of_char c :: nat) = 0x0B
      \<or> (of_char c :: nat) = 0x0C \<or> (of_char c :: nat) = 0x0D \<or> (of_char c :: nat) = 0x20
      \<or> (of_char c :: nat) = 0xA0"
    using nr by (simp add: is_whitespace_code_def big)
  also have "\<dots> \<longleftrightarrow> is_js_whitespace c"
    by (simp add: of_char_eq_iff_char_of latin1_codes is_js_whitespace_def)
  finally show ?thesis .
qed

lemma digit_code_of_char: "digit_code (of_char c) = digit_value c"
  by (simp add: digit_code_def digit_value_def Let_def)

lemma parseInt_text_code_points:
  "parseInt_text (code_points s) radix = parseInt s radix"
proof -
  have ws: "is_whitespace_code \<circ> of_char = is_js_whitespace"
    by (rule ext) (simp add: is_whitespace_code_of_char)
  have dg: "is_digit_code_in radix \<circ> of_char = is_digit_in radix"
    by (rule ext) (simp add: is_digit_code_in_def is_digit_in_def digit_code_of_char)
  have dv: "digit_codes_value radix (map of_char ds) = digits_value radix ds" for ds
    by (simp add: digit_codes_value_def digits_value_def foldl_map digit_code_of_char)
  have m: "(of_char c :: nat) = 0x2D \<longleftrightarrow> c = CHR ''-''" "(of_char c :: nat) = 0x2B \<longleftrightarrow> c = CHR ''+''" for c
    by (simp_all add: of_char_eq_iff_char_of latin1_codes)
  define s1 where "s1 = dropWhile is_js_whitespace s"
  have d: "dropWhile is_whitespace_code (map of_char s) = map of_char s1"
    by (simp add: dropWhile_map ws s1_def)
  define s2 where "s2 = (case s1 of c # r \<Rightarrow> (if c = CHR ''-'' \<or> c = CHR ''+'' then r else s1) | [] \<Rightarrow> s1)"
  have sg: "(case map of_char s1 of c # _ \<Rightarrow> (if c = (0x2D :: nat) then (-1::int) else 1) | [] \<Rightarrow> 1)
      = (case s1 of c # _ \<Rightarrow> (if c = CHR ''-'' then (-1::int) else 1) | [] \<Rightarrow> 1)"
    by (cases s1) (simp_all add: m)
  have rest: "(case map of_char s1 of c # r \<Rightarrow> (if c = (0x2D :: nat) \<or> c = 0x2B then r else map of_char s1)
                | [] \<Rightarrow> map of_char s1)
      = map of_char s2"
    by (cases s1) (simp_all add: m s2_def)
  have tw: "takeWhile (is_digit_code_in radix) (map of_char s2) = map of_char (takeWhile (is_digit_in radix) s2)"
    by (simp add: takeWhile_map dg)
  show ?thesis
    unfolding parseInt_text_def parseInt_def code_points_def d s1_def[symmetric] Let_def sg rest
      s2_def[symmetric] tw dv
    by simp
qed

subsection \<open>Reading a ZIP local file header\<close>

lemma subarray_range:
  assumes "a \<le> b" "b \<le> length buf"
  shows "subarray buf (int a) (int b) = take (b - a) (drop a buf)"
proof -
  have "nat (int b - int a) = b - a" using assms(1) by simp
  then show ?thesis using assms by (simp add: subarray_def Let_def min_def)
qed

lemma le16_value:
  assumes "n < 65536"
  shows "unat (of_nat n :: byte) + 256 * unat (of_nat (n div 256) :: byte) = n"
proof -
  have "(n div 256) mod 256 = n div 256" using assms by simp
  then show ?thesis by (simp add: unat_byte_of_nat)
qed

lemma le32_value:
  assumes "n < 4294967296"
  shows "unat (of_nat n :: byte) + 256 * unat (of_nat (n div 256) :: byte)
       + 65536 * unat (of_nat (n div 65536) :: byte) + 16777216 * unat (of_nat (n div 16777216) :: byte) = n"
proof -
  define q1 where "q1 = n div 256"
  define q2 where "q2 = q1 div 256"
  define q3 where "q3 = q2 div 256"
  define a where "a = n mod 256"
  define b where "b = q1 mod 256"
  define c where "c = q2 mod 256"
  have e1: "n = a + 256 * q1" by (simp add: a_def q1_def)
  have e2: "q1 = b + 256 * q2" by (simp add: b_def q2_def)
  have e3: "q2 = c + 256 * q3" by (simp add: c_def q3_def)
  have d1: "n div 65536 = q2" by (simp add: q2_def q1_def div_mult2_eq)
  have d2: "n div 16777216 = q3" by (simp add: q3_def q2_def q1_def div_mult2_eq)
  have "q3 < 256" using assms unfolding d2[symmetric] by simp
  then have m3: "q3 mod 256 = q3" by simp
  have "a + 256 * b + 65536 * c + 16777216 * q3 = n"
    using e1 e2 e3 by linarith
  then show ?thesis
    unfolding unat_byte_of_nat d1 d2 m3 q1_def[symmetric] a_def[symmetric] b_def[symmetric] c_def[symmetric]
    by simp
qed

lemma zip_local_header_split:
  "zip_local_header e = zip_fixed e @ ze_name e @ ze_extra e"
  by (simp add: zip_local_header_def zip_fixed_def)

lemma length_zip_fixed: "length (zip_fixed e) = 30"
  by (simp add: zip_fixed_def le16_def le32_def)

lemma length_zip_local_header:
  "length (zip_local_header e) = 30 + length (ze_name e) + length (ze_extra e)"
  by (simp add: zip_local_header_split length_zip_fixed)

lemma zip_fixed_fields:
  assumes "zip_entry_ok e"
  shows "zip_fixed e ! 0 = 0x50" "zip_fixed e ! 1 = 0x4b" "zip_fixed e ! 2 = 0x03" "zip_fixed e ! 3 = 0x04"
    and "getUint16 (zip_fixed e) 6 = ze_flags e"
    and "getUint32 (zip_fixed e) 18 = ze_csize e"
    and "getUint16 (zip_fixed e) 26 = length (ze_name e)"
    and "getUint16 (zip_fixed e) 28 = length (ze_extra e)"
proof -
  show "zip_fixed e ! 0 = 0x50" "zip_fixed e ! 1 = 0x4b" "zip_fixed e ! 2 = 0x03" "zip_fixed e ! 3 = 0x04"
    by (simp_all add: zip_fixed_def)
  have f: "ze_flags e < 65536" and c: "ze_csize e < 4294967296" and n: "length (ze_name e) < 65536"
    and x: "length (ze_extra e) < 65536"
    using assms by (simp_all add: zip_entry_ok_def)
  show "getUint16 (zip_fixed e) 6 = ze_flags e"
    using le16_value[OF f] by (simp add: getUint16_def zip_fixed_def le16_def le32_def)
  show "getUint32 (zip_fixed e) 18 = ze_csize e"
    using le32_value[OF c] by (simp add: getUint32_def zip_fixed_def le16_def le32_def)
  show "getUint16 (zip_fixed e) 26 = length (ze_name e)"
    using le16_value[OF n] by (simp add: getUint16_def zip_fixed_def le16_def le32_def)
  show "getUint16 (zip_fixed e) 28 = length (ze_extra e)"
    using le16_value[OF x] by (simp add: getUint16_def zip_fixed_def le16_def le32_def)
qed

lemma nth_in_middle:
  "i < length blk \<Longrightarrow> (pre @ blk @ post) ! (length pre + i) = blk ! i"
  by (simp add: nth_append)

lemma getUint16_in_middle:
  "i + 1 < length blk \<Longrightarrow> getUint16 (pre @ blk @ post) (length pre + i) = getUint16 blk i"
  using nth_in_middle[of i blk pre post] nth_in_middle[of "i + 1" blk pre post]
  by (simp add: getUint16_def add.assoc)

lemma getUint32_in_middle:
  "i + 3 < length blk \<Longrightarrow> getUint32 (pre @ blk @ post) (length pre + i) = getUint32 blk i"
  using nth_in_middle[of i blk pre post] nth_in_middle[of "i + 1" blk pre post]
    nth_in_middle[of "i + 2" blk pre post] nth_in_middle[of "i + 3" blk pre post]
  by (simp add: getUint32_def add.assoc)

text \<open>One turn of the loop on a well-formed local header.\<close>

lemma zip_walk_entry:
  assumes "zip_entry_ok e"
  shows "zip_walk (pre @ zip_local_header e @ rest) (length pre) =
     (if \<not> endsWith (decode_text (ze_name e)) (code_points ''/'') then Some (decode_text (ze_name e))
      else zip_walk (pre @ zip_local_header e @ rest)
             (length pre + length (zip_local_header e)
                + (if ze_flags e AND 0x08 \<noteq> 0 then 0 else ze_csize e)))"
proof -
  define buf where "buf = pre @ zip_local_header e @ rest"
  define offs where "offs = length pre"
  have b: "buf = pre @ zip_fixed e @ (ze_name e @ ze_extra e @ rest)"
    by (simp add: buf_def zip_local_header_split)
  note ff = zip_fixed_fields[OF assms]
  have len: "offs + 30 \<le> length buf" by (simp add: b offs_def length_zip_fixed)
  have s0: "buf ! offs = 0x50"
    using nth_in_middle[of 0 "zip_fixed e" pre] ff(1) by (simp add: b offs_def length_zip_fixed)
  have s1: "buf ! (offs + 1) = 0x4b"
    using nth_in_middle[of 1 "zip_fixed e" pre] ff(2) by (simp add: b offs_def length_zip_fixed)
  have s2: "buf ! (offs + 2) = 0x03"
    using nth_in_middle[of 2 "zip_fixed e" pre] ff(3) by (simp add: b offs_def length_zip_fixed)
  have s3: "buf ! (offs + 3) = 0x04"
    using nth_in_middle[of 3 "zip_fixed e" pre] ff(4) by (simp add: b offs_def length_zip_fixed)
  have g6: "getUint16 buf (offs + 6) = ze_flags e"
    using getUint16_in_middle[of 6 "zip_fixed e" pre] ff(5) by (simp add: b offs_def length_zip_fixed)
  have g18: "getUint32 buf (offs + 18) = ze_csize e"
    using getUint32_in_middle[of 18 "zip_fixed e" pre] ff(6) by (simp add: b offs_def length_zip_fixed)
  have g26: "getUint16 buf (offs + 26) = length (ze_name e)"
    using getUint16_in_middle[of 26 "zip_fixed e" pre] ff(7) by (simp add: b offs_def length_zip_fixed)
  have g28: "getUint16 buf (offs + 28) = length (ze_extra e)"
    using getUint16_in_middle[of 28 "zip_fixed e" pre] ff(8) by (simp add: b offs_def length_zip_fixed)
  have fit: "offs + 30 + length (ze_name e) \<le> length buf"
    by (simp add: b offs_def length_zip_fixed)
  have "subarray buf (int (offs + 30)) (int (offs + 30 + length (ze_name e)))
      = take (length (ze_name e)) (drop (offs + 30) buf)"
    using subarray_range[of "offs + 30" "offs + 30 + length (ze_name e)" buf] fit by simp
  also have "drop (offs + 30) buf = ze_name e @ ze_extra e @ rest"
    by (simp add: b offs_def length_zip_fixed)
  finally have nm: "subarray buf (int (offs + 30)) (int (offs + 30 + length (ze_name e))) = ze_name e"
    by simp
  have hl: "length (zip_local_header e) = 30 + length (ze_name e) + length (ze_extra e)"
    by (rule length_zip_local_header)
  have nfit: "\<not> length buf < offs + 30 + length (ze_name e)" using fit by simp
  have step: "zip_walk buf offs =
     (if \<not> endsWith (decode_text (ze_name e)) (code_points ''/'') then Some (decode_text (ze_name e))
      else zip_walk buf (offs + (30 + length (ze_name e) + length (ze_extra e))
                          + (if ze_flags e AND 0x08 \<noteq> 0 then 0 else ze_csize e)))"
    using len s0 s1 s2 s3 g6 g18 g26 g28 nm nfit
    by (subst zip_walk.simps) (simp add: Let_def)
  show ?thesis
    unfolding buf_def[symmetric] offs_def[symmetric] hl by (rule step)
qed

subsection \<open>ZIP archives\<close>

lemma zip_first_file:
  assumes "zip_entry_ok e" "\<not> endsWith (decode_text (ze_name e)) (code_points ''/'')"
  shows "extractFirstFileFromArchive (zip_local_header e @ rest) = Some (Some (decode_text (ze_name e)))"
proof -
  define buf where "buf = zip_local_header e @ rest"
  have b: "buf = [] @ zip_fixed e @ (ze_name e @ ze_extra e @ rest)"
    by (simp add: buf_def zip_local_header_split)
  note ff = zip_fixed_fields(1-4)[OF assms(1)]
  have sig: "buf ! 0 = 0x50" "buf ! 1 = 0x4b" "buf ! 2 = 0x03" "buf ! 3 = 0x04"
    using ff by (simp_all add: b nth_append length_zip_fixed)
  have len: "length buf > 4" by (simp add: b length_zip_fixed)
  have "zip_walk buf 0 = Some (decode_text (ze_name e))"
    using zip_walk_entry[OF assms(1), of "[]" rest] assms(2) by (simp add: buf_def)
  then show ?thesis
    unfolding buf_def[symmetric] using sig len
    by (simp add: extractFirstFileFromArchive_def extractFirstFileFromZip_def)
qed

text \<open>A directory without bit 3, its data, and a file behind it.\<close>

lemma zip_directory_then_file:
  assumes "zip_entry_ok d" "endsWith (decode_text (ze_name d)) (code_points ''/'')"
    and "ze_flags d AND 0x08 = 0" "length payload = ze_csize d"
    and "zip_entry_ok e" "\<not> endsWith (decode_text (ze_name e)) (code_points ''/'')"
  shows "extractFirstFileFromArchive (zip_local_header d @ payload @ zip_local_header e @ rest)
           = Some (Some (decode_text (ze_name e)))"
proof -
  define buf where "buf = zip_local_header d @ payload @ zip_local_header e @ rest"
  have b: "buf = [] @ zip_fixed d @ (ze_name d @ ze_extra d @ payload @ zip_local_header e @ rest)"
    by (simp add: buf_def zip_local_header_split)
  note ff = zip_fixed_fields(1-4)[OF assms(1)]
  have sig: "buf ! 0 = 0x50" "buf ! 1 = 0x4b" "buf ! 2 = 0x03" "buf ! 3 = 0x04"
    using ff by (simp_all add: b nth_append length_zip_fixed)
  have len: "length buf > 4" by (simp add: b length_zip_fixed)
  have 1: "zip_walk buf 0 = zip_walk buf (length (zip_local_header d) + length payload)"
    using zip_walk_entry[OF assms(1), of "[]" "payload @ zip_local_header e @ rest"] assms(2,3,4)
    by (simp add: buf_def)
  have 2: "zip_walk ((zip_local_header d @ payload) @ zip_local_header e @ rest)
             (length (zip_local_header d @ payload)) = Some (decode_text (ze_name e))"
    using zip_walk_entry[OF assms(5), of "zip_local_header d @ payload" rest] assms(6)
    by (simp only: if_True simp_thms)
  have "zip_walk buf 0 = Some (decode_text (ze_name e))"
    using 1 2 by (simp add: buf_def)
  then show ?thesis
    unfolding buf_def[symmetric] using sig len
    by (simp add: extractFirstFileFromArchive_def extractFirstFileFromZip_def)
qed

text \<open>
  A directory with bit 3: the loop steps over the header alone and reads the next signature where
  the data descriptor lies, so it stops with \<open>null\<close> whatever entries follow.
\<close>

lemma zip_flagged_directory:
  assumes "zip_entry_ok d" "endsWith (decode_text (ze_name d)) (code_points ''/'')"
    and "ze_flags d AND 0x08 \<noteq> 0"
  shows "extractFirstFileFromArchive (zip_local_header d @ data_descriptor crc csize usize @ rest)
           = Some None"
proof -
  define D where "D = data_descriptor crc csize usize"
  define buf where "buf = zip_local_header d @ D @ rest"
  define offs where "offs = length (zip_local_header d)"
  have b: "buf = [] @ zip_fixed d @ (ze_name d @ ze_extra d @ D @ rest)"
    by (simp add: buf_def zip_local_header_split)
  note ff = zip_fixed_fields(1-4)[OF assms(1)]
  have sig: "buf ! 0 = 0x50" "buf ! 1 = 0x4b" "buf ! 2 = 0x03" "buf ! 3 = 0x04"
    using ff by (simp_all add: b nth_append length_zip_fixed)
  have len: "length buf > 4" by (simp add: b length_zip_fixed)
  have 1: "zip_walk buf 0 = zip_walk buf offs"
    using zip_walk_entry[OF assms(1), of "[]" "D @ rest"] assms(2,3)
    by (simp add: buf_def offs_def)
  have lD: "length D = 16" by (simp add: D_def data_descriptor_def le32_def)
  have "buf ! (offs + 2) = D ! 2"
    using lD by (simp add: buf_def offs_def nth_append)
  then have d2: "buf ! (offs + 2) \<noteq> 0x03" by (simp add: D_def data_descriptor_def)
  have 2: "zip_walk buf offs = None"
    using d2 by (subst zip_walk.simps) simp
  show ?thesis
    unfolding buf_def[symmetric] D_def[symmetric] using sig len 1 2
    by (simp add: extractFirstFileFromArchive_def extractFirstFileFromZip_def)
qed

subsection \<open>Reading a TAR header block\<close>

lemma at_in_middle:
  "i < length blk \<Longrightarrow> at (pre @ blk @ post) (int (length pre) + int i) = Some (blk ! i)"
proof -
  assume i: "i < length blk"
  have "nat (int (length pre) + int i) = length pre + i" by simp
  then show ?thesis using i nth_in_middle[OF i, of pre post] by (simp add: at_def)
qed

lemma scan_field_list:
  assumes "\<And>i. i < n \<Longrightarrow> at buf (start + int i) = Some (xs ! i)" "n \<le> length xs"
  shows "scan_field stop buf start n = length (takeWhile (\<lambda>b. \<not> stop (Some b)) (take n xs))"
  using assms
proof (induction n arbitrary: start xs)
  case 0
  then show ?case by simp
next
  case (Suc n)
  from Suc.prems(2) obtain x xs' where xs: "xs = x # xs'" by (cases xs) auto
  have a0: "at buf start = Some x" using Suc.prems(1)[of 0] xs by simp
  show ?case
  proof (cases "stop (Some x)")
    case True
    then show ?thesis using a0 xs by simp
  next
    case False
    have "scan_field stop buf (start + 1) n = length (takeWhile (\<lambda>b. \<not> stop (Some b)) (take n xs'))"
    proof (rule Suc.IH)
      fix i assume "i < n"
      then have "at buf (start + int (Suc i)) = Some (xs ! Suc i)" using Suc.prems(1)[of "Suc i"] by simp
      moreover have "start + int (Suc i) = start + 1 + int i" by simp
      moreover have "xs ! Suc i = xs' ! i" using xs by simp
      ultimately show "at buf (start + 1 + int i) = Some (xs' ! i)" by (simp only:)
    next
      show "n \<le> length xs'" using Suc.prems(2) xs by simp
    qed
    then show ?thesis using False a0 xs by simp
  qed
qed

lemma length_octal_digits: "length (octal_digits k n) = k"
  by (induction k arbitrary: n) simp_all

lemma length_bytes_of: "length (bytes_of s) = length s"
  by (simp add: bytes_of_def)

lemma length_tar_header:
  "tar_filler_ok f \<Longrightarrow> length (tar_header f name typeFlag entrySize) = 512"
  by (simp add: tar_header_def tar_filler_ok_def length_octal_digits length_bytes_of)

text \<open>The fields of a header block, by position.\<close>

lemma tar_header_parts:
  assumes "tar_filler_ok f"
  shows "take 100 (tar_header f name typeFlag entrySize) = take 100 (name @ replicate 100 0)"
    and "take 12 (drop 124 (tar_header f name typeFlag entrySize)) = octal_digits 11 entrySize @ [0]"
    and "tar_header f name typeFlag entrySize ! 156 = typeFlag"
    and "take 5 (drop 257 (tar_header f name typeFlag entrySize)) = bytes_of ''ustar''"
proof -
  define N where "N = take 100 (name @ replicate 100 (0::byte))"
  define S where "S = octal_digits 11 entrySize @ [0::byte]"
  define U where "U = bytes_of ''ustar''"
  have l: "length (tf_modes f) = 24" "length (tf_times f) = 20" "length (tf_link f) = 100"
    using assms by (simp_all add: tar_filler_ok_def)
  have lN: "length N = 100" by (simp add: N_def)
  have lS: "length S = 12" by (simp add: S_def length_octal_digits)
  have lU: "length U = 5" by (simp add: U_def length_bytes_of)
  have H: "tar_header f name typeFlag entrySize
      = N @ tf_modes f @ S @ tf_times f @ [typeFlag] @ tf_link f @ U @ tf_tail f"
    by (simp add: tar_header_def N_def S_def U_def)
  show "take 100 (tar_header f name typeFlag entrySize) = take 100 (name @ replicate 100 0)"
    unfolding H N_def[symmetric] using lN by simp
  show "take 12 (drop 124 (tar_header f name typeFlag entrySize)) = octal_digits 11 entrySize @ [0]"
    unfolding H S_def[symmetric] using lN lS l by simp
  show "tar_header f name typeFlag entrySize ! 156 = typeFlag"
    unfolding H using lN lS l by (simp add: nth_append)
  show "take 5 (drop 257 (tar_header f name typeFlag entrySize)) = bytes_of ''ustar''"
    unfolding H U_def[symmetric] using lN lS lU l by simp
qed

subsection \<open>The octal size field\<close>

lemma octal_digit_code:
  assumes "d < 8"
  shows "digit_code (unat (of_nat (48 + d) :: byte)) = Some d"
    and "\<not> is_whitespace_code (unat (of_nat (48 + d) :: byte))"
    and "unat (of_nat (48 + d) :: byte) \<noteq> 0x2D"
    and "unat (of_nat (48 + d) :: byte) \<noteq> 0x2B"
    and "(of_nat (48 + d) :: byte) \<noteq> 0" and "(of_nat (48 + d) :: byte) \<noteq> 0x20"
    and "unat (of_nat (48 + d) :: byte) \<le> 0x7F"
proof -
  have "unat (of_nat (48 + d) :: byte) = (48 + d) mod 256" by (rule unat_byte_of_nat)
  also have "\<dots> = 48 + d" using assms by simp
  finally have u: "unat (of_nat (48 + d) :: byte) = 48 + d" .
  show "digit_code (unat (of_nat (48 + d) :: byte)) = Some d"
    and "\<not> is_whitespace_code (unat (of_nat (48 + d) :: byte))"
    and "unat (of_nat (48 + d) :: byte) \<noteq> 0x2D"
    and "unat (of_nat (48 + d) :: byte) \<noteq> 0x2B"
    and "unat (of_nat (48 + d) :: byte) \<le> 0x7F"
    unfolding u using assms by (simp_all add: digit_code_def is_whitespace_code_def)
  show "(of_nat (48 + d) :: byte) \<noteq> 0"
  proof
    assume "(of_nat (48 + d) :: byte) = 0"
    then have "unat (of_nat (48 + d) :: byte) = unat (0 :: byte)" by (simp only:)
    then show False unfolding u by simp
  qed
  show "(of_nat (48 + d) :: byte) \<noteq> 0x20"
  proof
    assume "(of_nat (48 + d) :: byte) = 0x20"
    then have "unat (of_nat (48 + d) :: byte) = unat (0x20 :: byte)" by (simp only:)
    then show False unfolding u by simp
  qed
qed

lemma digit_codes_value_snoc:
  "digit_codes_value radix (ds @ [c]) = digit_codes_value radix ds * radix + the (digit_code c)"
  by (simp add: digit_codes_value_def)

lemma octal_digits_codes:
  "c \<in> set (map unat (octal_digits k n)) \<Longrightarrow>
     is_digit_code_in 8 c \<and> \<not> is_whitespace_code c \<and> c \<noteq> 0x2D \<and> c \<noteq> 0x2B \<and> c \<le> 0x7F"
proof (induction k arbitrary: n)
  case 0
  then show ?case by simp
next
  case (Suc k)
  have d: "n mod 8 < 8" by simp
  from Suc.prems have "c \<in> set (map unat (octal_digits k (n div 8)))
      \<or> c = unat (of_nat (48 + n mod 8) :: byte)"
    by auto
  then show ?case
  proof
    assume "c \<in> set (map unat (octal_digits k (n div 8)))"
    then show ?thesis by (rule Suc.IH)
  next
    assume c: "c = unat (of_nat (48 + n mod 8) :: byte)"
    show ?thesis unfolding c using octal_digit_code[OF d] by (simp add: is_digit_code_in_def)
  qed
qed

lemma octal_digits_bytes:
  "b \<in> set (octal_digits k n) \<Longrightarrow> b \<noteq> 0 \<and> b \<noteq> 0x20"
proof (induction k arbitrary: n)
  case 0
  then show ?case by simp
next
  case (Suc k)
  have d: "n mod 8 < 8" by simp
  from Suc.prems have "b \<in> set (octal_digits k (n div 8)) \<or> b = of_nat (48 + n mod 8)" by auto
  then show ?case
  proof
    assume "b \<in> set (octal_digits k (n div 8))"
    then show ?thesis by (rule Suc.IH)
  next
    assume "b = of_nat (48 + n mod 8)"
    then show ?thesis using octal_digit_code(5,6)[OF d] by simp
  qed
qed

lemma decode_octal_digits:
  "decode_text (octal_digits k n) = map unat (octal_digits k n)"
proof (rule decode_text_ascii)
  show "\<forall>b\<in>set (octal_digits k n). unat b \<le> 0x7F"
    using octal_digits_codes[of _ k n] by auto
qed

lemma digit_codes_value_octal:
  "digit_codes_value 8 (map unat (octal_digits k n)) = n mod 8 ^ k"
proof (induction k arbitrary: n)
  case 0
  then show ?case by (simp add: digit_codes_value_def)
next
  case (Suc k)
  have d: "n mod 8 < 8" by simp
  have "map unat (octal_digits (Suc k) n)
      = map unat (octal_digits k (n div 8)) @ [unat (of_nat (48 + n mod 8) :: byte)]"
    by simp
  then have "digit_codes_value 8 (map unat (octal_digits (Suc k) n))
      = digit_codes_value 8 (map unat (octal_digits k (n div 8))) * 8 + n mod 8"
    using octal_digit_code(1)[OF d] by (simp add: digit_codes_value_snoc)
  also have "\<dots> = ((n div 8) mod 8 ^ k) * 8 + n mod 8" by (simp add: Suc.IH)
  also have "\<dots> = n mod 8 ^ Suc k"
    by (simp add: mod_mult2_eq)
  finally show ?case .
qed

lemma parseInt_octal:
  assumes "0 < k" "n < 8 ^ k"
  shows "parseInt_text (decode_text (octal_digits k n)) 8 = Num (int n)"
proof -
  define s where "s = map unat (octal_digits k n)"
  have ne: "s \<noteq> []" using assms(1) length_octal_digits[of k n] by (auto simp: s_def)
  then obtain c cs where cs: "s = c # cs" by (cases s) auto
  have all: "\<And>x. x \<in> set s \<Longrightarrow> is_digit_code_in 8 x \<and> \<not> is_whitespace_code x \<and> x \<noteq> 0x2D \<and> x \<noteq> 0x2B"
    unfolding s_def using octal_digits_codes by blast
  have c: "\<not> is_whitespace_code c" "c \<noteq> 0x2D" "c \<noteq> 0x2B" using all[of c] cs by simp_all
  have dw: "dropWhile is_whitespace_code s = s" using c(1) cs by simp
  have tw: "takeWhile (is_digit_code_in 8) s = s" using all by (simp add: takeWhile_eq_all_conv)
  have v: "digit_codes_value 8 s = n" using digit_codes_value_octal[of k n] assms(2) by (simp add: s_def)
  have "parseInt_text s 8 = Num (int n)"
    unfolding parseInt_text_def dw Let_def using cs c tw v ne by simp
  then show ?thesis by (simp add: s_def decode_octal_digits)
qed

lemma ceil_blocks_pad512:
  "512 + ceil_blocks (int (length bytes)) * 512 = int (512 + length (pad512 bytes))"
proof -
  define s where "s = length bytes"
  define q where "q = s div 512"
  define r where "r = s mod 512"
  have s: "s = 512 * q + r" and r: "r < 512" by (simp_all add: q_def r_def)
  have "- ((- int s) div 512) * 512 = int (s + (512 - r) mod 512)"
  proof (cases "r = 0")
    case True
    then have "int s = 512 * int q" using s by simp
    then have "(- int s) div 512 = - int q" by simp
    then show ?thesis using True s by simp
  next
    case False
    have "- int s = 512 * (- int q - 1) + (512 - int r)" using s by simp
    moreover have "0 \<le> 512 - int r" "512 - int r < 512" using r False by simp_all
    ultimately have "(- int s) div 512 = - int q - 1"
      by (metis (no_types, opaque_lifting) add.commute div_pos_pos_trivial div_mult_self2 add.right_neutral zero_neq_numeral)
    moreover have "(512 - r) mod 512 = 512 - r" using r False by simp
    ultimately show ?thesis using s r by simp
  qed
  then show ?thesis
    by (simp add: ceil_blocks_def pad512_def s_def[symmetric] r_def[symmetric])
qed

subsection \<open>One header block inside a buffer\<close>

lemma subarray_in_middle:
  assumes "k \<le> length blk" "j \<le> k"
  shows "subarray (pre @ blk @ post) (int (length pre) + int j) (int (length pre) + int k)
           = take (k - j) (drop j blk)"
proof -
  have "subarray (pre @ blk @ post) (int (length pre + j)) (int (length pre + k))
      = take (length pre + k - (length pre + j)) (drop (length pre + j) (pre @ blk @ post))"
    by (rule subarray_range) (use assms in simp_all)
  also have "\<dots> = take (k - j) (drop j blk)"
    using assms by simp
  finally show ?thesis by simp
qed

lemma tar_block_fields:
  assumes "tar_filler_ok f" "entrySize < 8 ^ 11"
    and buf_def: "buf = pre @ tar_header f name typeFlag entrySize @ post"
  shows "int (length pre) + 512 \<le> int (length buf)"
    and "\<not> isZeroBlock buf (int (length pre))"
    and "header_typeFlag buf (int (length pre)) = typeFlag"
    and "header_size buf (int (length pre)) = int entrySize"
proof -
  define H where "H = tar_header f name typeFlag entrySize"
  have lH: "length H = 512" using length_tar_header[OF assms(1)] by (simp add: H_def)
  have b: "buf = pre @ H @ post" by (simp add: buf_def H_def)
  note parts = tar_header_parts[OF assms(1), of name typeFlag entrySize, folded H_def]
  have rd: "at buf (int (length pre) + int i) = Some (H ! i)" if "i < 512" for i
    unfolding b using at_in_middle[of i H pre post] that lH by simp
  show "int (length pre) + 512 \<le> int (length buf)" by (simp add: b lH)
  show "\<not> isZeroBlock buf (int (length pre))"
  proof
    assume "isZeroBlock buf (int (length pre))"
    then have "\<forall>i\<in>set [0..<512]. at buf (int (length pre) + int i) = Some 0"
      by (simp only: isZeroBlock_def list_all_iff)
    moreover have "(257::nat) \<in> set [0..<512]" by simp
    ultimately have "at buf (int (length pre) + int 257) = Some 0"
      by (rule bspec)
    then have "H ! 257 = 0" using rd[of 257] by simp
    moreover have "H ! 257 = (take 5 (drop 257 H)) ! 0" using lH by simp
    ultimately show False using parts(4) by (simp add: bytes_of_def)
  qed
  show "header_typeFlag buf (int (length pre)) = typeFlag"
    using rd[of 156] parts(3) by (simp add: header_typeFlag_def)
  show "header_size buf (int (length pre)) = int entrySize"
  proof -
    let ?stop = "\<lambda>b :: byte option. b = Some 0 \<or> b = Some 0x20"
    have a: "at buf (int (length pre) + 124 + int i) = Some (drop 124 H ! i)" if "i < 12" for i
    proof -
      have "at buf (int (length pre) + int (124 + i)) = Some (H ! (124 + i))"
        using rd[of "124 + i"] that by simp
      then show ?thesis using lH that by (simp add: add.assoc)
    qed
    have "scan_field ?stop buf (int (length pre) + 124) 12
        = length (takeWhile (\<lambda>b. \<not> ?stop (Some b)) (take 12 (drop 124 H)))"
      by (rule scan_field_list) (use a lH in simp_all)
    also have "takeWhile (\<lambda>b. \<not> ?stop (Some b)) (take 12 (drop 124 H)) = octal_digits 11 entrySize"
      unfolding parts(2) using octal_digits_bytes[of _ 11 entrySize]
      by (simp add: takeWhile_append2)
    finally have sc: "scan_field ?stop buf (int (length pre) + 124) 12 = 11"
      by (simp add: length_octal_digits)
    have "subarray buf (int (length pre) + int 124) (int (length pre) + int 135) = take (135 - 124) (drop 124 H)"
      unfolding b by (rule subarray_in_middle) (simp_all add: lH)
    also have "\<dots> = take 11 (take 12 (drop 124 H))" by simp
    also have "\<dots> = octal_digits 11 entrySize"
      unfolding parts(2) by (simp add: length_octal_digits)
    finally have sa: "subarray buf (int (length pre) + int 124) (int (length pre) + int 135) = octal_digits 11 entrySize" .
    have e1: "int (length pre) + 124 = int (length pre) + int 124" by simp
    have e2: "int (length pre) + 124 + int 11 = int (length pre) + int 135" by simp
    have p: "parseInt_text (decode_text (octal_digits 11 entrySize)) 8 = Num (int entrySize)"
      by (rule parseInt_octal) (use assms(2) in simp_all)
    show ?thesis
      unfolding header_size_def sc Let_def e2 unfolding e1 sa p by simp
  qed
qed

lemma dropWhile_zeros:
  "x \<noteq> 0 \<Longrightarrow> dropWhile (\<lambda>b. b = 0) (replicate z (0::byte) @ x # ys) = x # ys"
  by (induction z) simp_all

lemma trim_trailing_zeros:
  assumes "lname \<noteq> []" "last lname \<noteq> 0"
  shows "rev (dropWhile (\<lambda>b. b = 0) (rev (lname @ replicate z (0::byte)))) = lname"
proof -
  obtain xs x where l: "lname = xs @ [x]" using assms(1) by (cases lname rule: rev_cases) auto
  then have x: "x \<noteq> 0" using assms(2) by simp
  have "rev (lname @ replicate z 0) = replicate z 0 @ (x # rev xs)" by (simp add: l)
  then have "dropWhile (\<lambda>b. b = 0) (rev (lname @ replicate z 0)) = x # rev xs"
    using dropWhile_zeros[OF x] by simp
  then show ?thesis by (simp add: l)
qed

lemma length_pad512: "length xs \<le> length (pad512 xs)"
  by (simp add: pad512_def)

lemma pad512_split: "\<exists>zs. pad512 xs = xs @ zs"
  by (simp add: pad512_def)

text \<open>A GNU long-name block whose payload decodes to a name that is not empty, and the entry
  behind it.\<close>

lemma tar_long_name:
  assumes "tar_filler_ok f1" "tar_filler_ok f2"
    and "lname \<noteq> []" "last lname \<noteq> 0"
    and "decode_text lname \<noteq> []" "\<not> endsWith (decode_text lname) (code_points ''/'')"
    and "length lname + z < 8 ^ 11" "entrySize < 8 ^ 11"
    and "typeFlag = 0x30 \<or> typeFlag = 0 \<or> typeFlag = 0x20"
  shows "extractFirstFileFromArchive
           (tar_header f1 (bytes_of ''././@LongLink'') 0x4C (length lname + z)
              @ pad512 (lname @ replicate z 0)
              @ tar_header f2 hname typeFlag entrySize @ rest)
         = Some (Some (decode_text lname))"
proof -
  define H1 where "H1 = tar_header f1 (bytes_of ''././@LongLink'') 0x4C (length lname + z)"
  define P where "P = pad512 (lname @ replicate z 0)"
  define H2 where "H2 = tar_header f2 hname typeFlag entrySize"
  define buf where "buf = H1 @ P @ H2 @ rest"
  have lH1: "length H1 = 512" using length_tar_header[OF assms(1)] by (simp add: H1_def)
  have lH2: "length H2 = 512" using length_tar_header[OF assms(2)] by (simp add: H2_def)
  obtain zs where P: "P = (lname @ replicate z 0) @ zs" using pad512_split[of "lname @ replicate z 0"]
    by (auto simp: P_def)
  have lP: "length lname + z \<le> length P" using length_pad512[of "lname @ replicate z 0"] by (simp add: P_def)
  text \<open>The first block.\<close>
  have b1: "buf = [] @ H1 @ (P @ H2 @ rest)" by (simp add: buf_def)
  have b1': "buf = [] @ tar_header f1 (bytes_of ''././@LongLink'') 0x4C (length lname + z) @ (P @ H2 @ rest)"
    by (simp add: buf_def H1_def)
  note f1 = tar_block_fields[OF assms(1) assms(7) b1', simplified]
  have ln: "long_name buf 512 (512 + int (length lname + z)) = decode_text lname"
  proof -
    have "subarray buf (int 512) (int (512 + (length lname + z))) = take (512 + (length lname + z) - 512) (drop 512 buf)"
      by (rule subarray_range) (use lP lH1 in \<open>simp_all add: buf_def\<close>)
    also have "drop 512 buf = lname @ replicate z 0 @ zs @ H2 @ rest"
      using lH1 by (simp add: buf_def P)
    finally have "subarray buf 512 (512 + int (length lname + z)) = lname @ replicate z 0"
      by simp
    then show ?thesis
      using trim_trailing_zeros[OF assms(3,4), of z] by (simp add: long_name_def Let_def)
  qed
  have ce: "512 + int (length lname + z) \<le> int (length buf)"
    using lP lH1 by (simp add: buf_def)
  have nx: "512 + ceil_blocks (int (length lname + z)) * 512 = int (length (H1 @ P))"
    using ceil_blocks_pad512[of "lname @ replicate z 0"] lH1 by (simp add: P_def)
  have step1: "tar_walk buf 0 None = tar_walk buf (int (length (H1 @ P))) (Some (decode_text lname))"
    using f1 ln ce nx
    by (subst tar_walk.simps) (simp add: Let_def)
  text \<open>The second block.\<close>
  have b2: "buf = (H1 @ P) @ H2 @ rest" by (simp add: buf_def)
  have b2': "buf = (H1 @ P) @ tar_header f2 hname typeFlag entrySize @ rest"
    by (simp add: buf_def H2_def)
  note f2 = tar_block_fields[OF assms(2) assms(8) b2']
  have tn: "truthy_name (Some (decode_text lname))" using assms(5) by simp
  have tfl: "typeFlag \<noteq> 0x4C" "typeFlag \<noteq> 0x35" using assms(9) by auto
  have step2: "tar_walk buf (int (length (H1 @ P))) (Some (decode_text lname)) = Some (Some (decode_text lname))"
    using f2 tn tfl assms(6,9)
    by (subst tar_walk.simps) (simp add: Let_def)
  text \<open>The signature checks.\<close>
  have parts: "take 100 H1 = take 100 (bytes_of ''././@LongLink'' @ replicate 100 0)"
    "take 5 (drop 257 H1) = bytes_of ''ustar''"
    using tar_header_parts(1,4)[OF assms(1), of "bytes_of ''././@LongLink''" "0x4C" "length lname + z"]
    by (simp_all add: H1_def)
  have "buf ! 0 = H1 ! 0" using lH1 by (simp add: buf_def nth_append)
  also have "\<dots> = take 100 H1 ! 0" by simp
  also have "\<dots> = 0x2E" unfolding parts(1) by (simp add: bytes_of_def)
  finally have nz: "buf ! 0 \<noteq> 0x50" by simp
  have "subarray buf (int 257) (int 262) = take (262 - 257) (drop 257 buf)"
    by (rule subarray_range) (use lH1 in \<open>simp_all add: buf_def\<close>)
  also have "\<dots> = take 5 (drop 257 H1)" using lH1 by (simp add: buf_def)
  finally have magic: "decode_text (subarray buf 257 262) = code_points ''ustar''"
    using parts(2) decode_bytes_of[of "''ustar''"] by simp
  have len: "length buf > 262" using lH1 by (simp add: buf_def)
  have "extractFirstFileFromArchive buf = Some (Some (decode_text lname))"
    using nz magic len step1 step2
    by (simp add: extractFirstFileFromArchive_def extractFirstFileFromTar_def)
  then show ?thesis by (simp add: buf_def H1_def P_def H2_def)
qed

text \<open>The name field of a header block.\<close>

lemma tar_block_name:
  assumes "tar_filler_ok f" "hname \<noteq> []" "0 \<notin> set hname" "length hname \<le> 100"
    and buf_def: "buf = pre @ tar_header f hname typeFlag entrySize @ post"
  shows "header_name buf (int (length pre)) = Some (decode_text hname)"
proof -
  define H where "H = tar_header f hname typeFlag entrySize"
  have lH: "length H = 512" using length_tar_header[OF assms(1)] by (simp add: H_def)
  have b: "buf = pre @ H @ post" by (simp add: buf_def H_def)
  note parts = tar_header_parts[OF assms(1), of hname typeFlag entrySize, folded H_def]
  let ?stop = "\<lambda>b :: byte option. b = Some 0"
  have rd: "at buf (int (length pre) + int i) = Some (H ! i)" if "i < 100" for i
    unfolding b using at_in_middle[of i H pre post] that lH by simp
  have "scan_field ?stop buf (int (length pre)) 100
      = length (takeWhile (\<lambda>b. \<not> ?stop (Some b)) (take 100 H))"
    by (rule scan_field_list) (use rd lH in simp_all)
  also have "take 100 H = hname @ replicate (100 - length hname) 0"
    unfolding parts(1) using assms(4) by simp
  also have "takeWhile (\<lambda>b. \<not> ?stop (Some b)) (hname @ replicate (100 - length hname) 0) = hname"
  proof (cases "100 - length hname")
    case 0
    then show ?thesis using assms(3) by (simp add: takeWhile_eq_all_conv) metis
  next
    case (Suc m)
    have "\<And>x. x \<in> set hname \<Longrightarrow> \<not> ?stop (Some x)" using assms(3) by auto
    then show ?thesis unfolding Suc by (simp add: takeWhile_append2)
  qed
  finally have sc: "scan_field ?stop buf (int (length pre)) 100 = length hname" .
  have "subarray buf (int (length pre) + int 0) (int (length pre) + int (length hname))
      = take (length hname - 0) (drop 0 H)"
    unfolding b by (rule subarray_in_middle) (use assms(4) lH in simp_all)
  also have "\<dots> = take (length hname) (take 100 H)" using assms(4) by simp
  also have "\<dots> = hname" unfolding parts(1) using assms(4) by simp
  finally have sa: "subarray buf (int (length pre)) (int (length pre) + int (length hname)) = hname"
    by simp
  show ?thesis
    unfolding header_name_def sc Let_def sa using assms(2) by simp
qed

text \<open>
  A GNU long-name block whose payload decodes to the empty string (a lone byte-order mark, for
  one): the override is falsy, so the name field of the next header is returned.
\<close>

lemma tar_long_name_empty:
  assumes "tar_filler_ok f1" "tar_filler_ok f2"
    and "lname \<noteq> []" "last lname \<noteq> 0" "decode_text lname = []"
    and "hname \<noteq> []" "0 \<notin> set hname" "length hname \<le> 100"
    and "decode_text hname \<noteq> []" "\<not> endsWith (decode_text hname) (code_points ''/'')"
    and "length lname + z < 8 ^ 11" "entrySize < 8 ^ 11"
    and "typeFlag = 0x30 \<or> typeFlag = 0 \<or> typeFlag = 0x20"
  shows "extractFirstFileFromArchive
           (tar_header f1 (bytes_of ''././@LongLink'') 0x4C (length lname + z)
              @ pad512 (lname @ replicate z 0)
              @ tar_header f2 hname typeFlag entrySize @ rest)
         = Some (Some (decode_text hname))"
proof -
  define H1 where "H1 = tar_header f1 (bytes_of ''././@LongLink'') 0x4C (length lname + z)"
  define P where "P = pad512 (lname @ replicate z 0)"
  define H2 where "H2 = tar_header f2 hname typeFlag entrySize"
  define buf where "buf = H1 @ P @ H2 @ rest"
  have lH1: "length H1 = 512" using length_tar_header[OF assms(1)] by (simp add: H1_def)
  have lH2: "length H2 = 512" using length_tar_header[OF assms(2)] by (simp add: H2_def)
  obtain zs where P: "P = (lname @ replicate z 0) @ zs" using pad512_split[of "lname @ replicate z 0"]
    by (auto simp: P_def)
  have lP: "length lname + z \<le> length P" using length_pad512[of "lname @ replicate z 0"] by (simp add: P_def)
  have b1': "buf = [] @ tar_header f1 (bytes_of ''././@LongLink'') 0x4C (length lname + z) @ (P @ H2 @ rest)"
    by (simp add: buf_def H1_def)
  note f1 = tar_block_fields[OF assms(1) assms(11) b1', simplified]
  have ln: "long_name buf 512 (512 + int (length lname + z)) = []"
  proof -
    have "subarray buf (int 512) (int (512 + (length lname + z))) = take (512 + (length lname + z) - 512) (drop 512 buf)"
      by (rule subarray_range) (use lP lH1 in \<open>simp_all add: buf_def\<close>)
    also have "drop 512 buf = lname @ replicate z 0 @ zs @ H2 @ rest"
      using lH1 by (simp add: buf_def P)
    finally have "subarray buf 512 (512 + int (length lname + z)) = lname @ replicate z 0"
      by simp
    then show ?thesis
      using trim_trailing_zeros[OF assms(3,4), of z] assms(5) by (simp add: long_name_def Let_def)
  qed
  have ce: "512 + int (length lname + z) \<le> int (length buf)"
    using lP lH1 by (simp add: buf_def)
  have nx: "512 + ceil_blocks (int (length lname + z)) * 512 = int (length (H1 @ P))"
    using ceil_blocks_pad512[of "lname @ replicate z 0"] lH1 by (simp add: P_def)
  have step1: "tar_walk buf 0 None = tar_walk buf (int (length (H1 @ P))) (Some [])"
    using f1 ln ce nx
    by (subst tar_walk.simps) (simp add: Let_def)
  have b2': "buf = (H1 @ P) @ tar_header f2 hname typeFlag entrySize @ rest"
    by (simp add: buf_def H2_def)
  note f2 = tar_block_fields[OF assms(2) assms(12) b2']
  note n2 = tar_block_name[OF assms(2) assms(6,7,8) b2']
  have tn: "truthy_name (Some (decode_text hname))" using assms(9) by simp
  have tfl: "typeFlag \<noteq> 0x4C" "typeFlag \<noteq> 0x35" using assms(13) by auto
  have step2: "tar_walk buf (int (length (H1 @ P))) (Some []) = Some (Some (decode_text hname))"
    using f2 n2 tn tfl assms(10,13)
    by (subst tar_walk.simps) (simp add: Let_def)
  have parts: "take 100 H1 = take 100 (bytes_of ''././@LongLink'' @ replicate 100 0)"
    "take 5 (drop 257 H1) = bytes_of ''ustar''"
    using tar_header_parts(1,4)[OF assms(1), of "bytes_of ''././@LongLink''" "0x4C" "length lname + z"]
    by (simp_all add: H1_def)
  have "buf ! 0 = H1 ! 0" using lH1 by (simp add: buf_def nth_append)
  also have "\<dots> = take 100 H1 ! 0" by simp
  also have "\<dots> = 0x2E" unfolding parts(1) by (simp add: bytes_of_def)
  finally have nz: "buf ! 0 \<noteq> 0x50" by simp
  have "subarray buf (int 257) (int 262) = take (262 - 257) (drop 257 buf)"
    by (rule subarray_range) (use lH1 in \<open>simp_all add: buf_def\<close>)
  also have "\<dots> = take 5 (drop 257 H1)" using lH1 by (simp add: buf_def)
  finally have magic: "decode_text (subarray buf 257 262) = code_points ''ustar''"
    using parts(2) decode_bytes_of[of "''ustar''"] by simp
  have len: "length buf > 262" using lH1 by (simp add: buf_def)
  have "extractFirstFileFromArchive buf = Some (Some (decode_text hname))"
    using nz magic len step1 step2
    by (simp add: extractFirstFileFromArchive_def extractFirstFileFromTar_def)
  then show ?thesis by (simp add: buf_def H1_def P_def H2_def)
qed

subsection \<open>The first entry's name\<close>

text \<open>
  The archives of the claim that the code reads as the claim says: a single entry \<open>movie.mkv\<close>;
  a directory without bit 3 followed by a file; a GNU long-name block before the header of a
  regular file. The last line is a long name that is only a byte-order mark.
\<close>

lemma first_entry_name_samples:
  "extractFirstFileFromArchive (zip_local_header movie_entry @ [1, 2, 3])
     = Some (Some (code_points ''movie.mkv''))"
  "extractFirstFileFromArchive
     (zip_local_header clips_directory @ [] @ zip_local_header movie_entry @ [1, 2, 3])
     = Some (Some (code_points ''movie.mkv''))"
  "extractFirstFileFromArchive
     (tar_header zero_filler (bytes_of ''././@LongLink'') 0x4C (length (bytes_of ''clips/a-long-name.mkv'') + 1)
        @ pad512 (bytes_of ''clips/a-long-name.mkv'' @ replicate 1 0)
        @ tar_header zero_filler (bytes_of ''clips/a-long'') 0x30 3 @ pad512 [1, 2, 3])
     = Some (Some (code_points ''clips/a-long-name.mkv''))"
  "extractFirstFileFromArchive
     (tar_header zero_filler (bytes_of ''././@LongLink'') 0x4C (length [0xEF, 0xBB, 0xBF :: byte] + 1)
        @ pad512 ([0xEF, 0xBB, 0xBF] @ replicate 1 0)
        @ tar_header zero_filler (bytes_of ''h.mkv'') 0x30 3 @ pad512 [1, 2, 3])
     = Some (Some (code_points ''h.mkv''))"
proof -
  have ok: "zip_entry_ok movie_entry" "zip_entry_ok clips_directory"
    by (simp_all add: zip_entry_ok_def movie_entry_def clips_directory_def bytes_of_def)
  have dn: "decode_text (ze_name movie_entry) = code_points ''movie.mkv''"
    by (simp add: movie_entry_def decode_bytes_of)
  have nd: "\<not> endsWith (decode_text (ze_name movie_entry)) (code_points ''/'')"
    unfolding dn by (simp add: endsWith_def suffix_to_prefix code_points_def)
  have dd: "endsWith (decode_text (ze_name clips_directory)) (code_points ''/'')"
    by (simp add: clips_directory_def decode_bytes_of endsWith_def suffix_to_prefix code_points_def)
  have fl: "ze_flags clips_directory AND 0x08 = 0" by (simp add: clips_directory_def)
  have pl: "length ([] :: byte list) = ze_csize clips_directory" by (simp add: clips_directory_def)
  show "extractFirstFileFromArchive (zip_local_header movie_entry @ [1, 2, 3])
     = Some (Some (code_points ''movie.mkv''))"
    using zip_first_file[OF ok(1) nd, of "[1, 2, 3]"] unfolding dn .
  show "extractFirstFileFromArchive
     (zip_local_header clips_directory @ [] @ zip_local_header movie_entry @ [1, 2, 3])
     = Some (Some (code_points ''movie.mkv''))"
    using zip_directory_then_file[OF ok(2) dd fl pl ok(1) nd, of "[1, 2, 3]"] unfolding dn .
  let ?l = "bytes_of ''clips/a-long-name.mkv''"
  have f: "tar_filler_ok zero_filler" by (simp add: tar_filler_ok_def zero_filler_def)
  have l1: "?l \<noteq> []" "last ?l \<noteq> 0" by (simp_all add: bytes_of_def)
  have dl: "decode_text ?l = code_points ''clips/a-long-name.mkv''" by (simp add: decode_bytes_of)
  have l2: "decode_text ?l \<noteq> []" unfolding dl by (simp add: code_points_def)
  have l3: "\<not> endsWith (decode_text ?l) (code_points ''/'')"
    unfolding dl by (simp add: endsWith_def suffix_to_prefix code_points_def)
  have l4: "length ?l + 1 < 8 ^ 11" by (simp add: bytes_of_def)
  have l5: "(3::nat) < 8 ^ 11" by simp
  have l6: "(0x30::byte) = 0x30 \<or> (0x30::byte) = 0 \<or> (0x30::byte) = 0x20" by simp
  show "extractFirstFileFromArchive
     (tar_header zero_filler (bytes_of ''././@LongLink'') 0x4C (length ?l + 1)
        @ pad512 (?l @ replicate 1 0)
        @ tar_header zero_filler (bytes_of ''clips/a-long'') 0x30 3 @ pad512 [1, 2, 3])
     = Some (Some (code_points ''clips/a-long-name.mkv''))"
    using tar_long_name[OF f f l1 l2 l3 l4 l5 l6, of "bytes_of ''clips/a-long''" "pad512 [1, 2, 3]"]
    unfolding dl .
  let ?b = "[0xEF, 0xBB, 0xBF :: byte]" and ?h = "bytes_of ''h.mkv''"
  have b1: "?b \<noteq> []" "last ?b \<noteq> 0" by simp_all
  have b2: "decode_text ?b = []" by (rule decode_text_examples(1))
  have h1: "?h \<noteq> []" "0 \<notin> set ?h" "length ?h \<le> 100" by (simp_all add: bytes_of_def)
  have dh: "decode_text ?h = code_points ''h.mkv''" by (simp add: decode_bytes_of)
  have h2: "decode_text ?h \<noteq> []" unfolding dh by (simp add: code_points_def)
  have h3: "\<not> endsWith (decode_text ?h) (code_points ''/'')"
    unfolding dh by (simp add: endsWith_def suffix_to_prefix code_points_def)
  have b4: "length ?b + 1 < 8 ^ 11" by simp
  show "extractFirstFileFromArchive
     (tar_header zero_filler (bytes_of ''././@LongLink'') 0x4C (length ?b + 1)
        @ pad512 (?b @ replicate 1 0)
        @ tar_header zero_filler ?h 0x30 3 @ pad512 [1, 2, 3])
     = Some (Some (code_points ''h.mkv''))"
    using tar_long_name_empty[OF f f b1 b2 h1 h2 h3 b4 l5 l6, of "pad512 [1, 2, 3]"]
    unfolding dh .
qed

text \<open>
  C9. The claim fails on the code for a directory entry that has bit 3 of its flags set, as
  streaming writers store it: \<open>clips/\<close> with its data descriptor, followed by the file
  \<open>movie.mkv\<close>. The code skips the header of the directory but not the 16 bytes of the
  descriptor, finds no local header signature there, and returns \<open>null\<close> instead of
  \<open>movie.mkv\<close>. With the same two entries and bit 3 clear it returns \<open>movie.mkv\<close>.
\<close>

theorem flagged_directory_hides_file:
  "extractFirstFileFromArchive
     (zip_local_header flagged_directory @ data_descriptor 0 0 0 @ zip_local_header movie_entry @ [1, 2, 3])
     = Some None
   \<and> extractFirstFileFromArchive
       (zip_local_header clips_directory @ zip_local_header movie_entry @ [1, 2, 3])
     = Some (Some (code_points ''movie.mkv''))"
proof -
  have ok: "zip_entry_ok movie_entry" "zip_entry_ok clips_directory" "zip_entry_ok flagged_directory"
    by (simp_all add: zip_entry_ok_def movie_entry_def clips_directory_def flagged_directory_def bytes_of_def)
  have dn: "decode_text (ze_name movie_entry) = code_points ''movie.mkv''"
    by (simp add: movie_entry_def decode_bytes_of)
  have nd: "\<not> endsWith (decode_text (ze_name movie_entry)) (code_points ''/'')"
    unfolding dn by (simp add: endsWith_def suffix_to_prefix code_points_def)
  have dd: "endsWith (decode_text (ze_name clips_directory)) (code_points ''/'')"
    by (simp add: clips_directory_def decode_bytes_of endsWith_def suffix_to_prefix code_points_def)
  then have df: "endsWith (decode_text (ze_name flagged_directory)) (code_points ''/'')"
    by (simp add: flagged_directory_def)
  have fl: "ze_flags clips_directory AND 0x08 = 0" by (simp add: clips_directory_def)
  have ff: "ze_flags flagged_directory AND 0x08 \<noteq> 0" by (simp add: flagged_directory_def)
  have pl: "length ([] :: byte list) = ze_csize clips_directory" by (simp add: clips_directory_def)
  have 1: "extractFirstFileFromArchive
     (zip_local_header flagged_directory @ data_descriptor 0 0 0 @ zip_local_header movie_entry @ [1, 2, 3])
     = Some None"
    by (rule zip_flagged_directory[OF ok(3) df ff])
  have 2: "extractFirstFileFromArchive
       (zip_local_header clips_directory @ zip_local_header movie_entry @ [1, 2, 3])
     = Some (Some (code_points ''movie.mkv''))"
    using zip_directory_then_file[OF ok(2) dd fl pl ok(1) nd, of "[1, 2, 3]"] unfolding dn by simp
  from 1 2 show ?thesis by (rule conjI)
qed

subsection \<open>A size field that does not advance the offset\<close>

text \<open>
  \<open>parseInt\<close> accepts a sign, so the size of an entry can be negative. On the block
  \<open>negative_size_block\<close> the offset stays at zero after the first header, and the loop of
  \<open>extractFirstFileFromTar\<close> reads the same header for ever: the call does not return.
\<close>

lemma negative_size_block_fields:
  "length negative_size_block = 512"
  "at negative_size_block 0 \<noteq> Some 0"
  "header_typeFlag negative_size_block 0 = 0x35"
  "header_size negative_size_block 0 = - 512"
proof -
  show l: "length negative_size_block = 512"
    by (simp add: negative_size_block_def bytes_of_def)
  show "at negative_size_block 0 \<noteq> Some 0"
    by (simp add: at_def negative_size_block_def bytes_of_def)
  have "at negative_size_block (0 + int 156) = Some ((negative_size_block) ! 156)"
    using l by (simp add: at_def)
  then show "header_typeFlag negative_size_block 0 = 0x35"
    by (simp add: header_typeFlag_def negative_size_block_def bytes_of_def nth_append)
  let ?stop = "\<lambda>b :: byte option. b = Some 0 \<or> b = Some 0x20"
  have d: "drop 124 negative_size_block = bytes_of ''-1000'' @ replicate 27 0 @ [0x35]
       @ replicate 100 0 @ bytes_of ''ustar'' @ replicate 250 0"
    by (simp add: negative_size_block_def bytes_of_def)
  have a: "at negative_size_block (0 + 124 + int i) = Some (drop 124 negative_size_block ! i)" if "i < 12" for i
    using that l by (simp add: at_def nat_add_distrib)
  have "scan_field ?stop negative_size_block (0 + 124) 12
      = length (takeWhile (\<lambda>b. \<not> ?stop (Some b)) (take 12 (drop 124 negative_size_block)))"
    by (rule scan_field_list) (use a l in simp_all)
  also have "\<dots> = 5" unfolding d by (simp add: bytes_of_def)
  finally have sc: "scan_field ?stop negative_size_block (0 + 124) 12 = 5" .
  have "subarray negative_size_block (int 124) (int 129) = take (129 - 124) (drop 124 negative_size_block)"
    by (rule subarray_range) (simp_all add: l)
  also have "\<dots> = bytes_of ''-1000''" unfolding d by (simp add: bytes_of_def)
  finally have sa: "subarray negative_size_block (0 + 124) (0 + 124 + int 5) = bytes_of ''-1000''" by simp
  have dt: "decode_text (bytes_of ''-1000'') = code_points ''-1000''"
    by (simp add: decode_bytes_of)
  have p: "parseInt_text (code_points ''-1000'') 8 = Num (- 512)"
    by (simp add: parseInt_text_code_points parseInt_def is_js_whitespace_def is_digit_in_def
        digit_value_def digits_value_def)
  show "header_size negative_size_block 0 = - 512"
    unfolding header_size_def sc Let_def sa dt p by simp
qed

lemma tar_walk_negative_size_aux:
  assumes ret: "tar_walk buf0 offs0 nn0 = Some y0"
  shows "\<not> (buf0 = negative_size_block \<and> offs0 = 0 \<and> nn0 = None)"
proof (rule tar_walk.raw_induct [where P = "\<lambda>buf offs nn y. \<not> (buf = negative_size_block \<and> offs = 0 \<and> nn = None)", OF _ ret])
  fix f :: "byte list \<Rightarrow> int \<Rightarrow> ustring option \<Rightarrow> ustring option option"
    and buf offs nn r
  assume IH: "\<And>offs nn b y. f offs nn b = Some y \<Longrightarrow> \<not> (offs = negative_size_block \<and> nn = 0 \<and> b = None)"
    and step: "(if offs + 512 \<le> int (length buf)
      then if at buf offs = Some 0 \<and> isZeroBlock buf offs
           then f buf (offs + 512) nn
           else let name = if truthy_name nn then nn
                      else case header_name buf offs of None \<Rightarrow> nn | Some n \<Rightarrow> Some n;
                    typeFlag = header_typeFlag buf offs;
                    entrySize = header_size buf offs
                in if typeFlag = 76
                   then let blocks = ceil_blocks entrySize;
                            contentStart = offs + 512;
                            contentEnd = contentStart + entrySize
                        in f buf (offs + (512 + blocks * 512))
                            (if contentEnd \<le> int (length buf)
                             then Some (long_name buf contentStart contentEnd)
                             else nn)
                   else let isDir = typeFlag = 53 \<or> name_ends_with_slash name;
                            isFile = typeFlag = 48 \<or> typeFlag = 0 \<or> typeFlag = 32
                        in if \<not> isDir \<and> isFile \<and> truthy_name name \<and> \<not> name_ends_with_slash name
                           then Some name
                           else f buf (offs + (512 + ceil_blocks entrySize * 512)) None
      else Some None) = Some r"
  show "\<not> (buf = negative_size_block \<and> offs = 0 \<and> nn = None)"
  proof
    assume e: "buf = negative_size_block \<and> offs = 0 \<and> nn = None"
    have "f negative_size_block 0 None = Some r"
      using step e negative_size_block_fields
      by (simp add: Let_def ceil_blocks_def)
    from IH[OF this] show False by simp
  qed
qed

lemma extractFirstFileFromArchive_may_not_return:
  "extractFirstFileFromArchive negative_size_block = None"
proof -
  have w: "tar_walk negative_size_block 0 None = None"
  proof (cases "tar_walk negative_size_block 0 None")
    case None
    then show ?thesis .
  next
    case (Some y)
    from tar_walk_negative_size_aux[OF this] show ?thesis by simp
  qed
  have l: "length negative_size_block = 512"
    by (rule negative_size_block_fields)
  have z: "negative_size_block ! 0 \<noteq> 0x50"
    by (simp add: negative_size_block_def bytes_of_def)
  have "subarray negative_size_block (int 257) (int 262) = take (262 - 257) (drop 257 negative_size_block)"
    by (rule subarray_range) (simp_all add: l)
  also have "\<dots> = bytes_of ''ustar''"
    by (simp add: negative_size_block_def bytes_of_def)
  finally have m: "decode_text (subarray negative_size_block 257 262) = code_points ''ustar''"
    by (simp add: decode_bytes_of)
  show ?thesis
    unfolding extractFirstFileFromArchive_def extractFirstFileFromTar_def
    using w l z m by simp
qed

end
